theory Spec2Isabelle
  imports Complex_Main "HOL-Library.Word" "HOL-Library.Log_Nat"
begin

section \<open>The background reader of procspy\<close>

text \<open>
  A shallow embedding of \<^verbatim>\<open>probe/endpoint/procspy/background_reader_linux.go\<close>:
  the reader's fields, its lifecycle calls \<^verbatim>\<open>start\<close> and \<^verbatim>\<open>stop\<close>, the accessor
  \<^verbatim>\<open>getWalkedProcPid\<close>, the float64 arithmetic of the rate limit, and the goroutine
  \<^verbatim>\<open>loop\<close> as a transition system whose steps interleave with the callers' steps.
\<close>

subsection \<open>Buffers, socket maps and the reader's fields\<close>

text \<open>
  A \<^verbatim>\<open>bytes.Buffer\<close> is its unread contents. The reader owns two buffers, allocated
  once by \<^verbatim>\<open>newBackgroundReader\<close>; the fields \<^verbatim>\<open>walkingBuf\<close> and \<^verbatim>\<open>readyBuf\<close>
  are pointers to them, so the model keeps a store from the two addresses to contents.
  A \<^verbatim>\<open>map[uint64]*Proc\<close> is a partial map from socket inodes to the address of a
  \<^verbatim>\<open>Proc\<close>; the nil map is \<open>None\<close>. Of the struct's fields, \<^verbatim>\<open>walker\<close> is only
  passed on to \<^verbatim>\<open>walkProcPid\<close>, and \<^verbatim>\<open>mtx\<close> is kept with the tasks that compete for
  it, in the transition system below.
\<close>

type_synonym byte = "8 word"

type_synonym bytes = "byte list"

type_synonym proc_ptr = nat

type_synonym sockets = "64 word \<rightharpoonup> proc_ptr"

datatype bufref = Buf0 | Buf1

type_synonym store = "bufref \<Rightarrow> bytes"

datatype error = Errorf string

record backgroundReader =
  running :: bool
  pleaseStop :: bool
  walkingBuf :: bufref
  readyBuf :: bufref
  readySockets :: "sockets option"

definition newBackgroundReader :: "backgroundReader \<times> store" where
  "newBackgroundReader =
     (\<lparr>running = False, pleaseStop = False, walkingBuf = Buf0, readyBuf = Buf1,
       readySockets = None\<rparr>,
      (\<lambda>_. []))"

subsection \<open>Lifecycle calls and the accessor, as the lock serialises them\<close>

text \<open>
  \<^verbatim>\<open>start\<close> and \<^verbatim>\<open>stop\<close> run wholly under \<^verbatim>\<open>br.mtx\<close>; \<open>Inr ()\<close> is the nil error.
  The goroutine that \<^verbatim>\<open>start\<close> spawns is the transition system further down.
\<close>

definition start :: "backgroundReader \<Rightarrow> (error + unit) \<times> backgroundReader" where
  "start br =
     (if running br then (Inl (Errorf ''background reader already running''), br)
      else (Inr (), br\<lparr>running := True\<rparr>))"

definition stop :: "backgroundReader \<Rightarrow> (error + unit) \<times> backgroundReader" where
  "stop br =
     (if \<not> running br then (Inl (Errorf ''background reader already not running''), br)
      else (Inr (), br\<lparr>pleaseStop := True\<rparr>))"

text \<open>
  \<^verbatim>\<open>getWalkedProcPid(buf)\<close>: the caller's buffer after \<^verbatim>\<open>buf.ReadFrom\<close>, the map
  returned, and the reader and its buffers as the call leaves them.
\<close>

definition getWalkedProcPid ::
  "backgroundReader \<Rightarrow> store \<Rightarrow> bytes \<Rightarrow> (bytes \<times> sockets option) \<times> backgroundReader \<times> store" where
  "getWalkedProcPid br st buf =
     (let reader = st (readyBuf br)
      in ((buf @ reader, readySockets br), br, st))"

text \<open>A sequence of lifecycle calls with no step of the loop in between.\<close>

datatype lifecycle_call = CallStart | CallStop

fun lifecycle :: "lifecycle_call \<Rightarrow> backgroundReader \<Rightarrow> (error + unit) \<times> backgroundReader" where
  "lifecycle CallStart br = start br"
| "lifecycle CallStop br = stop br"

fun lifecycle_calls :: "lifecycle_call list \<Rightarrow> backgroundReader \<Rightarrow> backgroundReader" where
  "lifecycle_calls [] br = br"
| "lifecycle_calls (c # cs) br = lifecycle_calls cs (snd (lifecycle c br))"

text \<open>
  What the loop does to the lifecycle flags when, holding the lock, it finds
  \<^verbatim>\<open>pleaseStop\<close> set (lines 84 to 90).
\<close>

definition observe_stop :: "backgroundReader \<Rightarrow> backgroundReader" where
  "observe_stop br = br\<lparr>pleaseStop := False, running := False\<rparr>"

subsection \<open>float64\<close>

text \<open>
  The rate limit is computed in \<^verbatim>\<open>float64\<close>. A float64 is a finite binary64 value
  (kept as the rational it denotes), an infinity or NaN. Every operation computes the
  exact result and rounds it to the nearest binary64 value, ties to even: 53 bits of
  significand, the exponent of the least normal value is \<open>-1022\<close>, and a rounded
  magnitude of \<open>2\<^sup>1\<^sup>0\<^sup>2\<^sup>4\<close> or more overflows to an infinity. Zeros carry no sign
  here: the sign of a zero shows only when it divides, and the one divisor of this
  program, \<^verbatim>\<open>float64(walkTime)\<close>, converts an integer, whose zero is \<open>+0\<close>.
\<close>

datatype float64 = Finite rat | PInf | NInf | NaN

definition round_ties_even :: "rat \<Rightarrow> int" where
  "round_ties_even x =
     (let f = \<lfloor>x\<rfloor>; d = x - of_int f
      in if d < 1 / 2 then f else if 1 / 2 < d then f + 1 else if even f then f else f + 1)"

text \<open>\<open>\<lfloor>log\<^sub>2 x\<rfloor>\<close> of a positive rational.\<close>

definition ilog2 :: "rat \<Rightarrow> int" where
  "ilog2 x = (if 1 \<le> x then bitlen \<lfloor>x\<rfloor> - 1 else - bitlen (\<lceil>1 / x\<rceil> - 1))"

definition fl64 :: "rat \<Rightarrow> float64" where
  "fl64 x =
     (if x = 0 then Finite 0
      else
        let e = max (ilog2 \<bar>x\<bar>) (- 1022);
            ulp = 2 powi (e - 52);
            r = of_int (round_ties_even (x / ulp)) * ulp
        in if 2 powi 1024 \<le> \<bar>r\<bar> then (if 0 < x then PInf else NInf) else Finite r)"

text \<open>The conversion \<^verbatim>\<open>float64(i)\<close> of an integer.\<close>

definition f64_of_int :: "int \<Rightarrow> float64" where
  "f64_of_int i = fl64 (of_int i)"

fun f64_div :: "float64 \<Rightarrow> float64 \<Rightarrow> float64" where
  "f64_div NaN _ = NaN"
| "f64_div _ NaN = NaN"
| "f64_div (Finite a) (Finite b) =
     (if b = 0 then (if a = 0 then NaN else if 0 < a then PInf else NInf) else fl64 (a / b))"
| "f64_div (Finite a) PInf = Finite 0"
| "f64_div (Finite a) NInf = Finite 0"
| "f64_div PInf (Finite b) = (if 0 \<le> b then PInf else NInf)"
| "f64_div NInf (Finite b) = (if 0 \<le> b then NInf else PInf)"
| "f64_div PInf PInf = NaN"
| "f64_div PInf NInf = NaN"
| "f64_div NInf PInf = NaN"
| "f64_div NInf NInf = NaN"

fun f64_mul :: "float64 \<Rightarrow> float64 \<Rightarrow> float64" where
  "f64_mul NaN _ = NaN"
| "f64_mul _ NaN = NaN"
| "f64_mul (Finite a) (Finite b) = fl64 (a * b)"
| "f64_mul (Finite a) PInf = (if a = 0 then NaN else if 0 < a then PInf else NInf)"
| "f64_mul (Finite a) NInf = (if a = 0 then NaN else if 0 < a then NInf else PInf)"
| "f64_mul PInf (Finite b) = (if b = 0 then NaN else if 0 < b then PInf else NInf)"
| "f64_mul NInf (Finite b) = (if b = 0 then NaN else if 0 < b then NInf else PInf)"
| "f64_mul PInf PInf = PInf"
| "f64_mul PInf NInf = NInf"
| "f64_mul NInf PInf = NInf"
| "f64_mul NInf NInf = PInf"

text \<open>
  \<^verbatim>\<open>math.Min\<close>: negative infinity if either argument is, else NaN if either is, else
  the lesser.
\<close>

fun f64_min :: "float64 \<Rightarrow> float64 \<Rightarrow> float64" where
  "f64_min NInf _ = NInf"
| "f64_min _ NInf = NInf"
| "f64_min NaN _ = NaN"
| "f64_min _ NaN = NaN"
| "f64_min PInf y = y"
| "f64_min x PInf = x"
| "f64_min (Finite a) (Finite b) = Finite (min a b)"

text \<open>The comparison \<^verbatim>\<open>x > y\<close>: false when either side is NaN.\<close>

fun f64_gt :: "float64 \<Rightarrow> float64 \<Rightarrow> bool" where
  "f64_gt NaN _ = False"
| "f64_gt _ NaN = False"
| "f64_gt (Finite a) (Finite b) = (b < a)"
| "f64_gt PInf PInf = False"
| "f64_gt PInf _ = True"
| "f64_gt NInf _ = False"
| "f64_gt (Finite a) NInf = True"
| "f64_gt (Finite a) PInf = False"

text \<open>
  The conversion \<^verbatim>\<open>time.Duration(f)\<close> to int64 discards the fraction. For NaN, an
  infinity or a value outside int64 the language leaves the result to the
  implementation: \<open>None\<close>.
\<close>

definition duration_of_f64 :: "float64 \<Rightarrow> int option" where
  "duration_of_f64 f =
     (case f of
        Finite x \<Rightarrow>
          (let t = (if 0 \<le> x then \<lfloor>x\<rfloor> else \<lceil>x\<rceil>)
           in if - (2 ^ 63) \<le> t \<and> t < 2 ^ 63 then Some t else None)
      | _ \<Rightarrow> None)"

subsection \<open>The constants and the rate limit of one pass\<close>

text \<open>A \<^verbatim>\<open>time.Duration\<close> is a count of nanoseconds.\<close>

definition initialRateLimitPeriod :: int where
  "initialRateLimitPeriod = 50 * 1000000"

definition maxRateLimitPeriod :: int where
  "maxRateLimitPeriod = 250 * 1000000"

definition fdBlockSize :: "64 word" where
  "fdBlockSize = 300"

definition targetWalkTime :: int where
  "targetWalkTime = 10 * 1000000000"

definition maxRateLimitPeriodF :: float64 where
  "maxRateLimitPeriodF = Finite (of_int maxRateLimitPeriod)"

definition targetWalkTimeF :: float64 where
  "targetWalkTimeF = Finite (of_int targetWalkTime)"

text \<open>Line 102: is the pass more than half as long again as the target?\<close>

definition walk_too_slow :: "int \<Rightarrow> bool" where
  "walk_too_slow walkTime =
     f64_gt (f64_div (f64_of_int walkTime) targetWalkTimeF) (Finite (3 / 2))"

text \<open>Lines 111 and 112.\<close>

definition scaledRateLimitPeriod :: "int \<Rightarrow> int \<Rightarrow> float64" where
  "scaledRateLimitPeriod walkTime rateLimitPeriod =
     f64_mul (f64_div targetWalkTimeF (f64_of_int walkTime)) (f64_of_int rateLimitPeriod)"

definition newRateLimitPeriod :: "int \<Rightarrow> int \<Rightarrow> int option" where
  "newRateLimitPeriod walkTime rateLimitPeriod =
     duration_of_f64 (f64_min (scaledRateLimitPeriod walkTime rateLimitPeriod) maxRateLimitPeriodF)"

text \<open>\<^verbatim>\<open>time.NewTicker(d)\<close> panics unless \<open>d\<close> is positive; a ticker is its period.\<close>

definition NewTicker :: "int \<Rightarrow> int option" where
  "NewTicker d = (if d \<le> 0 then None else Some d)"

datatype log_entry =
    LogWalkError string
  | LogPassTook int
  | LogPassSlow int int
  | LogNewRateLimit int

text \<open>
  Lines 98 to 116 for a measured \<^verbatim>\<open>walkTime\<close>: the log lines written, and the new
  period with its ticker, or \<open>None\<close> when the conversion is left to the implementation
  or \<^verbatim>\<open>NewTicker\<close> panics.
\<close>

definition adapt :: "int \<Rightarrow> int \<Rightarrow> log_entry list \<times> int option" where
  "adapt walkTime rateLimitPeriod =
     (let lg = LogPassTook walkTime #
               (if walk_too_slow walkTime then [LogPassSlow walkTime targetWalkTime] else [])
      in case newRateLimitPeriod walkTime rateLimitPeriod of
           None \<Rightarrow> (lg, None)
         | Some p \<Rightarrow> (lg @ [LogNewRateLimit p], NewTicker p))"

subsection \<open>The loop and its callers as a transition system\<close>

text \<open>
  The goroutine \<^verbatim>\<open>loop\<close>, the lifecycle calls and any number of calls of
  \<^verbatim>\<open>getWalkedProcPid\<close> run concurrently. An execution is a sequence of events, each a
  statement of one of the tasks; \<^verbatim>\<open>br.mtx\<close> is the task that holds it, if any, and an
  event that takes the lock is not enabled while another task holds it.
\<close>

datatype owner = LoopTask | Caller nat

text \<open>Where the goroutine stands. The line numbers are those of the source file.\<close>

datatype loop_pc =
    Idle                \<comment> \<open>no goroutine: never started, or returned at line 89\<close>
  | Spawned             \<comment> \<open>\<^verbatim>\<open>go br.loop()\<close> done, line 71 next\<close>
  | Scanning            \<comment> \<open>inside \<^verbatim>\<open>walkProcPid\<close>, line 75\<close>
  | Walked sockets      \<comment> \<open>\<^verbatim>\<open>walkProcPid\<close> returned the map and no error, line 81 next\<close>
  | Locked sockets      \<comment> \<open>holds the lock, line 84 next\<close>
  | Swapped sockets     \<comment> \<open>buffers swapped at line 93, line 94 next\<close>
  | Assigned            \<comment> \<open>\<^verbatim>\<open>readySockets\<close> assigned, line 96 next\<close>
  | Adapting            \<comment> \<open>lock released, line 98 next\<close>
  | Resetting int       \<comment> \<open>ticker re-armed, line 118 next; carries \<^verbatim>\<open>walkTime\<close>\<close>
  | Sleeping int        \<comment> \<open>in \<^verbatim>\<open>time.Sleep\<close> of line 121 for this long\<close>
  | Crashed             \<comment> \<open>the goroutine panicked: the process is gone\<close>

text \<open>A call of \<^verbatim>\<open>getWalkedProcPid\<close> by caller \<open>c\<close>, with the caller's buffer.\<close>

datatype get_call =
    NoCall
  | Holding bytes                         \<comment> \<open>lock taken, the caller's buffer as passed\<close>
  | Copied bytes bytes                    \<comment> \<open>the buffer as passed, and after \<^verbatim>\<open>ReadFrom\<close>\<close>
  | Returned bytes bytes "sockets option" \<comment> \<open>as passed, as returned, the map returned\<close>

datatype event =
    Start
  | Stop
  | LoopInit
  | WalkWrite byte
  | WalkReturn "string + sockets"
  | LoopLock
  | LoopCheck
  | LoopAssign
  | LoopUnlock
  | LoopAdapt int
  | LoopReset
  | LoopWake
  | GetLock nat bytes
  | GetCopy nat
  | GetReturn nat

text \<open>
  The last five fields are history, kept for stating properties and read by no step:
  the bytes the running invocation of \<^verbatim>\<open>walkProcPid\<close> has appended, the invocations
  that returned without error (the walking buffer at the return, the bytes this
  invocation appended, its map), what each execution of lines 93 and 94 installed
  as ready buffer and ready map, the bytes all invocations of \<^verbatim>\<open>walkProcPid\<close> have
  appended since the last execution of lines 93 and 94 (since the constructor, before
  the first), and, for each execution of lines 93 and 94 in order, what that record of
  bytes was when it ran.
\<close>

record system =
  br :: backgroundReader
  bufs :: store
  mtx :: "owner option"
  pc :: loop_pc
  rateLimitPeriod :: int
  ticker :: "int option"
  logs :: "log_entry list"
  gets :: "nat \<Rightarrow> get_call"
  appended :: bytes
  passes :: "(bytes \<times> bytes \<times> sockets) list"
  published :: "(bytes \<times> sockets option) list"
  written :: bytes
  written_at :: "bytes list"

definition init :: system where
  "init =
     \<lparr>br = fst newBackgroundReader, bufs = snd newBackgroundReader, mtx = None, pc = Idle,
      rateLimitPeriod = 0, ticker = None, logs = [], gets = (\<lambda>_. NoCall), appended = [],
      passes = [], published = [], written = [], written_at = []\<rparr>"

text \<open>
  Modelled from the spec: \<^verbatim>\<open>walkProcPid\<close>, a function of this package, is not among
  the sources. One invocation appends serialized results to the buffer it is given and
  returns a freshly built map or an error. The bytes arrive one at a time as far as the
  other tasks can tell; which bytes, and what is returned, is up to the walk.
\<close>

definition walkProcPid_append :: "byte \<Rightarrow> bufref \<Rightarrow> store \<Rightarrow> store" where
  "walkProcPid_append b buf st = st(buf := st buf @ [b])"

text \<open>
  One step of one task. \<^verbatim>\<open>start\<close> and \<^verbatim>\<open>stop\<close> are one event each: they take the
  lock, run and release it, and touch nothing but the two flags. A walk is the events
  \<open>WalkWrite\<close>, in any number and interleaved with the other tasks' events, and then
  \<open>WalkReturn\<close> with the error or the map. The loop's critical section is the events
  from \<open>LoopLock\<close> to \<open>LoopUnlock\<close> (or to the return at line 89), a call of
  \<^verbatim>\<open>getWalkedProcPid\<close> the events \<open>GetLock\<close>, \<open>GetCopy\<close> and \<open>GetReturn\<close>.
\<close>

fun step :: "event \<Rightarrow> system \<Rightarrow> system option" where
  "step Start s =
     (if mtx s \<noteq> None then None
      else case start (br s) of
             (Inl e, b) \<Rightarrow> Some (s\<lparr>br := b\<rparr>)
           | (Inr u, b) \<Rightarrow> if pc s = Idle then Some (s\<lparr>br := b, pc := Spawned\<rparr>) else None)"
| "step Stop s =
     (if mtx s \<noteq> None then None else Some (s\<lparr>br := snd (stop (br s))\<rparr>))"
| "step LoopInit s =
     (if pc s = Spawned
      then Some (s\<lparr>rateLimitPeriod := initialRateLimitPeriod,
                  ticker := NewTicker initialRateLimitPeriod, pc := Scanning, appended := []\<rparr>)
      else None)"
| "step (WalkWrite b) s =
     (if pc s = Scanning
      then Some (s\<lparr>bufs := walkProcPid_append b (walkingBuf (br s)) (bufs s),
                  appended := appended s @ [b], written := written s @ [b]\<rparr>)
      else None)"
| "step (WalkReturn (Inl err)) s =
     (if pc s = Scanning
      then Some (s\<lparr>logs := logs s @ [LogWalkError err], appended := []\<rparr>)
      else None)"
| "step (WalkReturn (Inr m)) s =
     (if pc s = Scanning
      then Some (s\<lparr>pc := Walked m,
                  passes := passes s @ [(bufs s (walkingBuf (br s)), appended s, m)]\<rparr>)
      else None)"
| "step LoopLock s =
     (case pc s of
        Walked m \<Rightarrow> if mtx s = None then Some (s\<lparr>mtx := Some LoopTask, pc := Locked m\<rparr>) else None
      | _ \<Rightarrow> None)"
| "step LoopCheck s =
     (case pc s of
        Locked m \<Rightarrow>
          if pleaseStop (br s)
          then Some (s\<lparr>br := observe_stop (br s), ticker := None, mtx := None, pc := Idle\<rparr>)
          else Some (s\<lparr>br := (br s)\<lparr>readyBuf := walkingBuf (br s), walkingBuf := readyBuf (br s)\<rparr>,
                      pc := Swapped m\<rparr>)
      | _ \<Rightarrow> None)"
| "step LoopAssign s =
     (case pc s of
        Swapped m \<Rightarrow>
          Some (s\<lparr>br := (br s)\<lparr>readySockets := Some m\<rparr>, pc := Assigned,
                 published := published s @ [(bufs s (readyBuf (br s)), Some m)],
                 written := [], written_at := written_at s @ [written s]\<rparr>)
      | _ \<Rightarrow> None)"
| "step LoopUnlock s =
     (if pc s = Assigned then Some (s\<lparr>mtx := None, pc := Adapting\<rparr>) else None)"
| "step (LoopAdapt walkTime) s =
     (if pc s = Adapting
      then case adapt walkTime (rateLimitPeriod s) of
             (lg, None) \<Rightarrow> Some (s\<lparr>logs := logs s @ lg, ticker := None, pc := Crashed\<rparr>)
           | (lg, Some p) \<Rightarrow>
               Some (s\<lparr>logs := logs s @ lg, rateLimitPeriod := p, ticker := Some p,
                      pc := Resetting walkTime\<rparr>)
      else None)"
| "step LoopReset s =
     (case pc s of
        Resetting walkTime \<Rightarrow>
          Some (s\<lparr>bufs := (bufs s)(walkingBuf (br s) := []),
                 pc := Sleeping (targetWalkTime - walkTime)\<rparr>)
      | _ \<Rightarrow> None)"
| "step LoopWake s =
     (case pc s of
        Sleeping d \<Rightarrow> Some (s\<lparr>pc := Scanning, appended := []\<rparr>)
      | _ \<Rightarrow> None)"
| "step (GetLock c buf) s =
     (if mtx s = None \<and> (case gets s c of NoCall \<Rightarrow> True | Returned a b m \<Rightarrow> True | _ \<Rightarrow> False)
      then Some (s\<lparr>mtx := Some (Caller c), gets := (gets s)(c := Holding buf)\<rparr>)
      else None)"
| "step (GetCopy c) s =
     (case gets s c of
        Holding buf \<Rightarrow>
          Some (s\<lparr>gets := (gets s)(c := Copied buf (buf @ bufs s (readyBuf (br s))))\<rparr>)
      | _ \<Rightarrow> None)"
| "step (GetReturn c) s =
     (case gets s c of
        Copied buf buf' \<Rightarrow>
          Some (s\<lparr>mtx := None, gets := (gets s)(c := Returned buf buf' (readySockets (br s)))\<rparr>)
      | _ \<Rightarrow> None)"

text \<open>
  An execution: the events in order. \<open>None\<close> when an event is not enabled where it
  stands, or comes after the goroutine panicked.
\<close>

fun exec :: "event list \<Rightarrow> system \<Rightarrow> system option" where
  "exec [] s = Some s"
| "exec (e # es) s =
     (if pc s = Crashed then None
      else case step e s of None \<Rightarrow> None | Some s' \<Rightarrow> exec es s')"

text \<open>What a call of \<^verbatim>\<open>getWalkedProcPid\<close> that began now would append and return.\<close>

definition snapshot :: "system \<Rightarrow> bytes \<times> sockets option" where
  "snapshot s = (bufs s (readyBuf (br s)), readySockets (br s))"

subsection \<open>Views of an execution\<close>

text \<open>
  What one caller's call returned together with the walks that returned, the loop's
  position with the two lifecycle flags, and what the events of a stretch of execution
  say about the walks in it: the errors returned, the bytes appended, whether no walk
  returned successfully, and whether no \<^verbatim>\<open>stop\<close> was called and no walk failed.
\<close>

fun walk_errors :: "event list \<Rightarrow> string list" where
  "walk_errors [] = []"
| "walk_errors (WalkReturn (Inl err) # es) = err # walk_errors es"
| "walk_errors (e # es) = walk_errors es"

fun walk_writes :: "event list \<Rightarrow> bytes" where
  "walk_writes [] = []"
| "walk_writes (WalkWrite b # es) = b # walk_writes es"
| "walk_writes (e # es) = walk_writes es"

fun no_walk_succeeds :: "event list \<Rightarrow> bool" where
  "no_walk_succeeds [] = True"
| "no_walk_succeeds (WalkReturn (Inr m) # es) = False"
| "no_walk_succeeds (e # es) = no_walk_succeeds es"


definition loop_status :: "system \<Rightarrow> loop_pc \<times> bool \<times> bool" where
  "loop_status s = (pc s, running (br s), pleaseStop (br s))"



subsection \<open>Invariants of the transition system\<close>

text \<open>
  Who holds the lock, what the ready buffer and the ready map hold between two
  publications, what every finished call has seen, the range of the rate limit while
  a ticker is live, what the walking buffer holds in terms of the bytes appended since
  the last publication, and what more holds as long as no \<^verbatim>\<open>stop\<close> was called and no
  walk failed.
\<close>

fun loop_holds :: "loop_pc \<Rightarrow> bool" where
  "loop_holds (Locked m) = True"
| "loop_holds (Swapped m) = True"
| "loop_holds Assigned = True"
| "loop_holds _ = False"

fun get_holds :: "get_call \<Rightarrow> bool" where
  "get_holds (Holding b) = True"
| "get_holds (Copied b b') = True"
| "get_holds _ = False"

definition lock_inv :: "system \<Rightarrow> bool" where
  "lock_inv s \<longleftrightarrow>
     walkingBuf (br s) \<noteq> readyBuf (br s)
   \<and> (mtx s = Some LoopTask) = loop_holds (pc s)
   \<and> (\<forall>c. (mtx s = Some (Caller c)) = get_holds (gets s c))
   \<and> running (br s) = (pc s \<noteq> Idle)"

definition latest :: "(bytes \<times> sockets option) list \<Rightarrow> bytes \<times> sockets option" where
  "latest pub = last (([], None) # pub)"

definition current :: "system \<Rightarrow> bytes \<times> sockets option" where
  "current s = latest (published s)"

fun ready_at :: "loop_pc \<Rightarrow> system \<Rightarrow> bool" where
  "ready_at (Swapped m) s =
     ((bufs s (walkingBuf (br s)), readySockets (br s)) = current s
      \<and> (bufs s (readyBuf (br s)), appended s, m) \<in> set (passes s))"
| "ready_at (Walked m) s =
     (snapshot s = current s \<and> (bufs s (walkingBuf (br s)), appended s, m) \<in> set (passes s))"
| "ready_at (Locked m) s =
     (snapshot s = current s \<and> (bufs s (walkingBuf (br s)), appended s, m) \<in> set (passes s))"
| "ready_at _ s = (snapshot s = current s)"

definition ready_inv :: "system \<Rightarrow> bool" where
  "ready_inv s = ready_at (pc s) s"

definition published_inv :: "system \<Rightarrow> bool" where
  "published_inv s \<longleftrightarrow>
     (\<forall>b sm. (b, sm) \<in> set (published s) \<longrightarrow>
        (\<exists>app m. sm = Some m \<and> (b, app, m) \<in> set (passes s)))"

fun get_ok :: "(bytes \<times> sockets option) list \<Rightarrow> get_call \<Rightarrow> bool" where
  "get_ok pub (Copied buf buf') = (buf' = buf @ fst (latest pub))"
| "get_ok pub (Returned buf buf' m) =
     (\<exists>x \<in> set (([], None) # pub). buf' = buf @ fst x \<and> m = snd x)"
| "get_ok pub _ = True"

definition gets_inv :: "system \<Rightarrow> bool" where
  "gets_inv s \<longleftrightarrow> (\<forall>c. get_ok (published s) (gets s c))"

fun rate_free :: "loop_pc \<Rightarrow> bool" where
  "rate_free Idle = True"
| "rate_free Spawned = True"
| "rate_free Crashed = True"
| "rate_free _ = False"

definition rate_inv :: "system \<Rightarrow> bool" where
  "rate_inv s \<longleftrightarrow>
     rate_free (pc s)
     \<or> (0 < rateLimitPeriod s \<and> rateLimitPeriod s \<le> maxRateLimitPeriod
        \<and> ticker s = Some (rateLimitPeriod s))"





definition reader_inv :: "system \<Rightarrow> bool" where
  "reader_inv s \<longleftrightarrow> lock_inv s \<and> ready_inv s \<and> published_inv s \<and> gets_inv s \<and> rate_inv s"

subsection \<open>Closeness up to a factor, for the rounding errors\<close>

definition close_to :: "rat \<Rightarrow> rat \<Rightarrow> rat \<Rightarrow> bool" where
  "close_to c a b \<longleftrightarrow> a / c \<le> b \<and> b \<le> a * c"

definition c0 :: rat where
  "c0 = 1 / (1 - 2 powi (- 53))"

section \<open>Lifecycle calls\<close>

lemma running_after_start: "running (snd (start b))"
  by (simp add: start_def)

lemma lifecycle_keeps_running: "running b \<Longrightarrow> running (snd (lifecycle c b))"
  by (cases c) (simp_all add: start_def stop_def)

lemma lifecycle_calls_keep_running: "running b \<Longrightarrow> running (lifecycle_calls cs b)"
  by (induction cs arbitrary: b) (simp_all add: lifecycle_keeps_running)

lemma lifecycle_failure_frame: "fst (lifecycle c b) = Inl e \<Longrightarrow> snd (lifecycle c b) = b"
  by (cases c) (simp_all add: start_def stop_def split: if_splits)

text \<open>
  C4, as the code has it. A \<^verbatim>\<open>start\<close> after a \<^verbatim>\<open>start\<close> fails with the already-running
  error, whatever lifecycle calls come between them, as long as the loop has not
  observed a stop in between. \<^verbatim>\<open>stop\<close> fails with the not-running error exactly when
  \<^verbatim>\<open>running\<close> is false: a \<^verbatim>\<open>stop\<close> after a \<^verbatim>\<open>stop\<close> fails when the reader was not
  running to begin with, or when the loop observed the first stop in between; while the
  first stop is still pending, the second succeeds as the first did. A call that fails
  leaves the reader as it was.
\<close>

theorem lifecycle_errors:
  "fst (start (lifecycle_calls cs (snd (start b)))) =
     Inl (Errorf ''background reader already running'')
   \<and> ((fst (stop b) = Inl (Errorf ''background reader already not running'')) = (\<not> running b))
   \<and> (\<not> running b \<longrightarrow>
        fst (stop (snd (stop b))) = Inl (Errorf ''background reader already not running''))
   \<and> (running b \<longrightarrow>
        fst (stop b) = Inr () \<and> fst (stop (snd (stop b))) = Inr ()
        \<and> fst (stop (observe_stop (snd (stop b)))) =
            Inl (Errorf ''background reader already not running''))
   \<and> (fst (lifecycle c b) = Inl e \<longrightarrow> snd (lifecycle c b) = b)"
proof -
  have "running (lifecycle_calls cs (snd (start b)))"
    by (rule lifecycle_calls_keep_running) (rule running_after_start)
  then have "fst (start (lifecycle_calls cs (snd (start b)))) =
      Inl (Errorf ''background reader already running'')"
    by (simp add: start_def)
  moreover have "(fst (stop b) = Inl (Errorf ''background reader already not running''))
      = (\<not> running b)"
    by (simp add: stop_def)
  moreover have "\<not> running b \<longrightarrow>
      fst (stop (snd (stop b))) = Inl (Errorf ''background reader already not running'')"
    by (simp add: stop_def)
  moreover have "running b \<longrightarrow>
      fst (stop b) = Inr () \<and> fst (stop (snd (stop b))) = Inr ()
      \<and> fst (stop (observe_stop (snd (stop b)))) =
          Inl (Errorf ''background reader already not running'')"
    by (simp add: stop_def observe_stop_def)
  moreover have "fst (lifecycle c b) = Inl e \<longrightarrow> snd (lifecycle c b) = b"
    by (simp add: lifecycle_failure_frame)
  ultimately show ?thesis by blast
qed

theorem lifecycle_errors_witness:
  "fst (start (lifecycle_calls [CallStop, CallStart] (snd (start (snd (start (fst newBackgroundReader)))))))
     = Inl (Errorf ''background reader already running'')
   \<and> running (snd (start (fst newBackgroundReader)))
   \<and> fst (stop (snd (start (fst newBackgroundReader)))) = Inr ()
   \<and> fst (stop (snd (stop (snd (start (fst newBackgroundReader)))))) = Inr ()
   \<and> fst (stop (observe_stop (snd (stop (snd (start (fst newBackgroundReader))))))) =
       Inl (Errorf ''background reader already not running'')
   \<and> fst (lifecycle CallStart (snd (start (fst newBackgroundReader)))) =
       Inl (Errorf ''background reader already running'')
   \<and> snd (lifecycle CallStart (snd (start (fst newBackgroundReader)))) =
       snd (start (fst newBackgroundReader))"
  using lifecycle_errors [where cs = "[CallStop, CallStart]"
      and b = "snd (start (fst newBackgroundReader))" and c = CallStart
      and e = "Errorf ''background reader already running''"]
  by (simp add: start_def stop_def newBackgroundReader_def)

text \<open>
  C4 as stated fails: on a started reader whose loop has not yet reached its stop
  check, the first \<^verbatim>\<open>stop\<close> returns nil and so does the second.
\<close>

theorem stop_stop_counterexample:
  "fst (start (fst newBackgroundReader)) = Inr ()
   \<and> fst (stop (snd (start (fst newBackgroundReader)))) = Inr ()
   \<and> fst (stop (snd (stop (snd (start (fst newBackgroundReader)))))) \<noteq>
       Inl (Errorf ''background reader already not running'')"
  by (simp add: start_def stop_def newBackgroundReader_def)

section \<open>Rounding to float64\<close>

lemma round_ties_even_of_int: "round_ties_even (of_int n) = n"
  by (simp add: round_ties_even_def)

lemma round_ties_even_error: "\<bar>of_int (round_ties_even x) - x\<bar> \<le> 1 / 2"
proof -
  have "of_int \<lfloor>x\<rfloor> \<le> x" "x < of_int \<lfloor>x\<rfloor> + 1"
    by linarith+
  then show ?thesis
    by (auto simp: round_ties_even_def Let_def abs_le_iff)
qed

lemma round_ties_even_nonneg: "0 \<le> x \<Longrightarrow> 0 \<le> round_ties_even x"
  by (auto simp: round_ties_even_def Let_def)

lemma powi_nat: "0 \<le> k \<Longrightarrow> (2::rat) powi k = of_int (2 ^ nat k)"
  by (simp add: power_int_def)

lemma bitlen_ge1: "1 \<le> m \<Longrightarrow> 1 \<le> bitlen m"
  using bitlen_nonneg [of m] bitlen_eq_zero_iff [of m] by linarith

lemma ilog2_bounds:
  assumes "0 < x"
  shows "2 powi ilog2 x \<le> x \<and> x < 2 powi (ilog2 x + 1)"
proof (cases "1 \<le> x")
  case True
  define m where "m = \<lfloor>x\<rfloor>"
  define k where "k = bitlen m"
  have m1: "1 \<le> m" using True by (simp add: m_def)
  have mx: "of_int m \<le> x" "x < of_int m + 1"
    unfolding m_def by linarith+
  from bitlen_bounds [of m] m1 have b: "2 ^ nat (k - 1) \<le> m" "m + 1 \<le> 2 ^ nat k"
    by (simp_all add: k_def)
  have k1: "1 \<le> k" unfolding k_def using m1 by (rule bitlen_ge1)
  have e: "ilog2 x = k - 1" using True by (simp add: ilog2_def m_def k_def)
  from b(1) have "(of_int (2 ^ nat (k - 1)) :: rat) \<le> of_int m"
    by (simp only: of_int_le_iff)
  with k1 have l: "(2::rat) powi (k - 1) \<le> of_int m"
    by (simp add: powi_nat)
  from b(2) have "(of_int (m + 1) :: rat) \<le> of_int (2 ^ nat k)"
    by (simp only: of_int_le_iff)
  with k1 have u: "of_int m + 1 \<le> (2::rat) powi k"
    by (simp add: powi_nat)
  from l u mx show ?thesis
    unfolding e by simp
next
  case False
  define y where "y = 1 / x"
  define c where "c = \<lceil>y\<rceil>"
  define k where "k = bitlen (c - 1)"
  from False assms have y1: "1 < y" by (simp add: y_def)
  have cy: "of_int c - 1 < y" "y \<le> of_int c"
    unfolding c_def by linarith+
  from y1 cy(2) have "(1::rat) < of_int c" by linarith
  then have c2: "1 \<le> c - 1" by linarith
  from bitlen_bounds [of "c - 1"] c2 have b: "2 ^ nat (k - 1) \<le> c - 1" "c \<le> 2 ^ nat k"
    by (simp_all add: k_def)
  have k1: "1 \<le> k" unfolding k_def using c2 by (rule bitlen_ge1)
  have e: "ilog2 x = - k" using False by (simp add: ilog2_def y_def c_def k_def)
  from b(1) have "(of_int (2 ^ nat (k - 1)) :: rat) \<le> of_int (c - 1)"
    by (simp only: of_int_le_iff)
  with k1 have "(2::rat) powi (k - 1) \<le> of_int c - 1"
    by (simp add: powi_nat)
  with cy(1) have l: "(2::rat) powi (k - 1) < y" by linarith
  from b(2) have "(of_int c :: rat) \<le> of_int (2 ^ nat k)"
    by (simp only: of_int_le_iff)
  with k1 have "of_int c \<le> (2::rat) powi k"
    by (simp add: powi_nat)
  with cy(2) have u: "y \<le> (2::rat) powi k" by linarith
  have pk: "0 < (2::rat) powi k" "0 < (2::rat) powi (k - 1)" by simp_all
  have "2 powi (- k) \<le> x"
    using u pk(1) assms by (simp add: power_int_minus y_def field_simps)
  moreover have eq: "(2::rat) powi (- k + 1) = inverse (2 powi (k - 1))"
    using power_int_minus [of "2::rat" "k - 1"] by simp
  have "x < inverse (2 powi (k - 1))"
    using l pk(2) assms by (simp add: y_def field_simps)
  then have "x < 2 powi (- k + 1)"
    by (simp only: eq)
  ultimately show ?thesis
    unfolding e by simp
qed

lemma ilog2_unique:
  assumes "2 powi e \<le> x" and "x < 2 powi (e + 1)"
  shows "ilog2 x = e"
proof -
  have "(0::rat) < 2 powi e" by simp
  with assms(1) have x: "0 < x" by linarith
  from ilog2_bounds [OF x] have b: "2 powi ilog2 x \<le> x" "x < 2 powi (ilog2 x + 1)"
    by simp_all
  have "\<not> ilog2 x < e"
  proof
    assume "ilog2 x < e"
    then have "ilog2 x + 1 \<le> e" by simp
    then have "(2::rat) powi (ilog2 x + 1) \<le> 2 powi e"
      by (rule power_int_increasing) simp
    with b(2) assms(1) show False by linarith
  qed
  moreover have "\<not> e < ilog2 x"
  proof
    assume "e < ilog2 x"
    then have "e + 1 \<le> ilog2 x" by simp
    then have "(2::rat) powi (e + 1) \<le> 2 powi ilog2 x"
      by (rule power_int_increasing) simp
    with b(1) assms(2) show False by linarith
  qed
  ultimately show ?thesis by linarith
qed

lemma fl64_eval:
  assumes "2 powi e \<le> x" and "x < 2 powi (e + 1)" and "- 1022 \<le> e" and "e \<le> 1022"
    and "round_ties_even (x / 2 powi (e - 52)) = n"
  shows "fl64 x = Finite (of_int n * 2 powi (e - 52))"
proof -
  have "(0::rat) < 2 powi e" by simp
  with assms(1) have x: "0 < x" by linarith
  have il: "ilog2 \<bar>x\<bar> = e"
    using x assms(1,2) by (simp add: ilog2_unique)
  have ulp: "(0::rat) < 2 powi (e - 52)" by simp
  have "\<bar>of_int n - x / 2 powi (e - 52)\<bar> \<le> 1 / 2"
    using round_ties_even_error [of "x / 2 powi (e - 52)"] assms(5) by simp
  then have "of_int n \<le> x / 2 powi (e - 52) + 1 / 2"
    by linarith
  with ulp have "of_int n * 2 powi (e - 52) \<le> x + 2 powi (e - 52) / 2"
    by (simp add: field_simps)
  moreover have "(2::rat) powi (e - 52) \<le> 2 powi (e + 1)"
    by (rule power_int_increasing) simp_all
  ultimately have r1: "(of_int n :: rat) * 2 powi (e - 52) < 2 * 2 powi (e + 1)"
    using assms(2) ulp by linarith
  have "(2::rat) powi (e + 1) \<le> 2 powi 1023"
    using assms(4) by (intro power_int_increasing) simp_all
  with r1 have r2: "(of_int n :: rat) * 2 powi (e - 52) < 2 * 2 powi 1023"
    by linarith
  have "(2::rat) * 2 powi 1023 = 2 powi 1024"
    using power_int_add [of "2::rat" 1 1023] by simp
  with r2 have r3: "(of_int n :: rat) * 2 powi (e - 52) < 2 powi 1024"
    by (simp only:)
  from x have "0 \<le> x / 2 powi (e - 52)" by simp
  then have "0 \<le> n" using assms(5) round_ties_even_nonneg by blast
  then have "(0::rat) \<le> of_int n * 2 powi (e - 52)" by simp
  with r3 have "\<not> 2 powi 1024 \<le> \<bar>(of_int n :: rat) * 2 powi (e - 52)\<bar>"
    by linarith
  with x il assms(3,5) show ?thesis
    by (simp add: fl64_def Let_def max_def)
qed

lemma fl64_normal:
  assumes "2 powi (- 1022) \<le> x" and "x < 2 powi 1023"
  shows "\<exists>r. fl64 x = Finite r \<and> x * (1 - 2 powi (- 53)) \<le> r \<and> r \<le> x * (1 + 2 powi (- 53))"
proof -
  have "(0::rat) < 2 powi (- 1022)" by (rule zero_less_power_int) simp
  with assms(1) have x: "0 < x" by linarith
  define e where "e = ilog2 x"
  define n where "n = round_ties_even (x / 2 powi (e - 52))"
  from ilog2_bounds [OF x] have b: "2 powi e \<le> x" "x < 2 powi (e + 1)"
    by (simp_all add: e_def)
  have "\<not> e + 1 \<le> - 1022"
  proof
    assume "e + 1 \<le> - 1022"
    then have "(2::rat) powi (e + 1) \<le> 2 powi (- 1022)"
      by (rule power_int_increasing) simp
    with b(2) assms(1) show False by linarith
  qed
  then have e1: "- 1022 \<le> e" by linarith
  have "\<not> 1023 \<le> e"
  proof
    assume "1023 \<le> e"
    then have "(2::rat) powi 1023 \<le> 2 powi e"
      by (rule power_int_increasing) simp
    with b(1) assms(2) show False by linarith
  qed
  then have e2: "e \<le> 1022" by linarith
  from fl64_eval [OF b e1 e2] have f: "fl64 x = Finite (of_int n * 2 powi (e - 52))"
    by (simp add: n_def)
  have ulp: "(0::rat) < 2 powi (e - 52)" by simp
  have "\<bar>of_int n - x / 2 powi (e - 52)\<bar> \<le> 1 / 2"
    unfolding n_def by (rule round_ties_even_error)
  then have "x / 2 powi (e - 52) - 1 / 2 \<le> of_int n" "of_int n \<le> x / 2 powi (e - 52) + 1 / 2"
    by linarith+
  with ulp have r: "x - 2 powi (e - 52) / 2 \<le> of_int n * 2 powi (e - 52)"
      "of_int n * 2 powi (e - 52) \<le> x + 2 powi (e - 52) / 2"
    by (simp_all add: field_simps)
  have "(2::rat) powi (e - 52) / 2 = 2 powi e * 2 powi (- 53)"
    using power_int_add [of "2::rat" e "- 53"] power_int_add [of "2::rat" "e - 53" 1]
    by simp
  moreover have "(2::rat) powi e * 2 powi (- 53) \<le> x * 2 powi (- 53)"
    using b(1) by (intro mult_right_mono) simp_all
  ultimately have "(2::rat) powi (e - 52) / 2 \<le> x * 2 powi (- 53)"
    by linarith
  with r have "x * (1 - 2 powi (- 53)) \<le> of_int n * 2 powi (e - 52)"
    "of_int n * 2 powi (e - 52) \<le> x * (1 + 2 powi (- 53))"
    by (simp_all add: algebra_simps)
  with f show ?thesis by blast
qed

lemma floor_rat_numeral_div:
  "\<lfloor>(numeral a :: rat) / numeral b\<rfloor> = numeral a div numeral b"
  using floor_divide_of_int_eq [of "numeral a" "numeral b", where ?'a = rat] by simp

lemma fl64_exact_int:
  assumes "0 < i" and "i < 2 ^ 53"
  shows "fl64 (of_int i) = Finite (of_int i)"
proof -
  define x :: rat where "x = of_int i"
  define e where "e = ilog2 x"
  have x: "1 \<le> x" "x < 2 ^ 53"
    using assms by (simp_all add: x_def)
  then have "0 < x" by linarith
  from ilog2_bounds [OF this] have b: "2 powi e \<le> x" "x < 2 powi (e + 1)"
    by (simp_all add: e_def)
  have "\<not> e + 1 \<le> 0"
  proof
    assume "e + 1 \<le> 0"
    then have "(2::rat) powi (e + 1) \<le> 2 powi 0"
      by (rule power_int_increasing) simp
    with b(2) x(1) show False by simp
  qed
  then have e0: "0 \<le> e" by linarith
  have "\<not> 53 \<le> e"
  proof
    assume "53 \<le> e"
    then have "(2::rat) powi 53 \<le> 2 powi e"
      by (rule power_int_increasing) simp
    with b(1) x(2) show False by simp
  qed
  then have e52: "e \<le> 52" by linarith
  have "(2::rat) powi (e - 52) = inverse (2 powi (52 - e))"
    using power_int_minus [of "2::rat" "52 - e"] by simp
  also have "(2::rat) powi (52 - e) = of_int (2 ^ nat (52 - e))"
    using e52 by (simp add: powi_nat)
  finally have p: "(2::rat) powi (e - 52) = inverse (of_int (2 ^ nat (52 - e)))" .
  have d: "x / 2 powi (e - 52) = of_int (i * 2 ^ nat (52 - e))"
    unfolding p x_def by (simp add: field_simps)
  have r: "round_ties_even (x / 2 powi (e - 52)) = i * 2 ^ nat (52 - e)"
    unfolding d by (rule round_ties_even_of_int)
  from e0 e52 have "- 1022 \<le> e" "e \<le> 1022" by simp_all
  from fl64_eval [OF b this r]
  have "fl64 x = Finite (of_int (i * 2 ^ nat (52 - e)) * 2 powi (e - 52))" .
  also have "of_int (i * 2 ^ nat (52 - e)) * 2 powi (e - 52) = x"
    unfolding p x_def by (simp add: field_simps)
  finally show ?thesis by (simp add: x_def)
qed

lemma c0_bounds: "1 < c0" "c0 \<le> 2" "c0 * c0 \<le> 2" "c0 * c0 * c0 \<le> 2"
  "c0 * c0 * c0 * c0 \<le> 1 + 1 / 1000000000000000"
  by (simp_all add: c0_def)

lemma close_fl:
  assumes "2 powi (- 1022) \<le> a" and "a < 2 powi 1023"
  shows "\<exists>r. fl64 a = Finite r \<and> close_to c0 a r"
proof -
  have "(0::rat) < 2 powi (- 1022)" by (rule zero_less_power_int) simp
  with assms(1) have a: "0 < a" by linarith
  from fl64_normal [OF assms] obtain r where r: "fl64 a = Finite r"
    "a * (1 - 2 powi (- 53)) \<le> r" "r \<le> a * (1 + 2 powi (- 53))"
    by blast
  have "a / c0 = a * (1 - 2 powi (- 53))"
    by (simp add: c0_def)
  moreover have "(1::rat) + 2 powi (- 53) \<le> c0"
    by (simp add: c0_def)
  then have "a * (1 + 2 powi (- 53)) \<le> a * c0"
    using a by (intro mult_left_mono) simp_all
  ultimately show ?thesis
    using r unfolding close_to_def by (intro exI [of _ r]) linarith
qed

lemma close_trans:
  assumes "close_to c a b" and "close_to d b b'" and "0 < c" and "0 < d"
  shows "close_to (c * d) a b'"
proof -
  from assms have 1: "a / c \<le> b" "b \<le> a * c" "b / d \<le> b'" "b' \<le> b * d"
    by (simp_all add: close_to_def)
  have "a / (c * d) = (a / c) / d" by simp
  also have "\<dots> \<le> b / d" using 1(1) assms(4) by (intro divide_right_mono) simp_all
  finally have l: "a / (c * d) \<le> b'" using 1(3) by linarith
  have "b * d \<le> (a * c) * d" using 1(2) assms(4) by (intro mult_right_mono) simp_all
  with 1(4) have "b' \<le> a * (c * d)" by (simp add: mult.assoc)
  with l show ?thesis by (simp add: close_to_def)
qed

lemma close_pos:
  assumes "close_to c a b" and "0 < a" and "0 < c"
  shows "0 < b"
proof -
  from assms(2,3) have "0 < a / c" by simp
  with assms(1) show ?thesis by (simp add: close_to_def)
qed

lemma close_inv:
  assumes "close_to c a b" and "0 < a" and "0 < c" and "0 < t"
  shows "close_to c (t / a) (t / b)"
proof -
  from assms(1,2,3) have b: "0 < b" by (rule close_pos)
  from assms(1) have 1: "a / c \<le> b" "b \<le> a * c"
    by (simp_all add: close_to_def)
  from 1(2) assms b have "t / a / c \<le> t / b"
    by (simp add: field_simps)
  moreover from 1(1) assms b have "t / b \<le> t / a * c"
    by (simp add: field_simps)
  ultimately show ?thesis by (simp add: close_to_def)
qed

lemma close_mult:
  assumes "close_to c a b" and "close_to d a' b'" and "0 < a" and "0 < a'"
    and "0 < c" and "0 < d"
  shows "close_to (c * d) (a * a') (b * b')"
proof -
  from assms have b: "0 < b" "0 < b'"
    by (auto intro: close_pos)
  from assms have 1: "a / c \<le> b" "b \<le> a * c" "a' / d \<le> b'" "b' \<le> a' * d"
    by (simp_all add: close_to_def)
  have "(a / c) * (a' / d) \<le> b * b'"
    using 1(1,3) assms b by (intro mult_mono) simp_all
  moreover have "b * b' \<le> (a * c) * (a' * d)"
    using 1(2,4) assms b by (intro mult_mono) simp_all
  ultimately show ?thesis by (simp add: close_to_def mult_ac)
qed

lemma close_range:
  assumes "close_to c a b" and "lo \<le> a" and "a \<le> hi" and "0 < lo" and "0 < c" and "c \<le> 2"
  shows "lo / 2 \<le> b \<and> b \<le> 2 * hi"
proof -
  from assms have 1: "a / c \<le> b" "b \<le> a * c"
    by (simp_all add: close_to_def)
  from assms have a: "0 < a" by linarith
  have "lo / 2 \<le> a / 2" using assms(2) by simp
  also have "a / 2 \<le> a / c"
    using a assms(5,6) by (intro divide_left_mono) simp_all
  finally have l: "lo / 2 \<le> b" using 1(1) by linarith
  have "a * c \<le> a * 2" using a assms(6) by (intro mult_left_mono) simp_all
  with 1(2) assms(3) have "b \<le> 2 * hi" by linarith
  with l show ?thesis by simp
qed

section \<open>The rate limit computed by one pass\<close>

lemma f64_min_Finite: "f64_min x (Finite c) = Finite y \<Longrightarrow> y \<le> c"
  by (cases x) auto

lemma newRateLimitPeriod_le:
  assumes "newRateLimitPeriod w p = Some t"
  shows "t \<le> maxRateLimitPeriod"
proof -
  let ?f = "f64_min (scaledRateLimitPeriod w p) (Finite (of_int maxRateLimitPeriod))"
  from assms obtain y where f: "?f = Finite y"
    and t: "t = (if 0 \<le> y then \<lfloor>y\<rfloor> else \<lceil>y\<rceil>)"
    by (cases ?f)
      (auto simp: newRateLimitPeriod_def duration_of_f64_def maxRateLimitPeriodF_def Let_def
        split: if_splits)
  from f have "y \<le> of_int maxRateLimitPeriod"
    by (rule f64_min_Finite)
  with t show ?thesis
    by (auto simp: floor_le_iff ceiling_le_iff)
qed

lemma adapt_Some:
  assumes "adapt w p = (lg, Some q)"
  shows "0 < q \<and> q \<le> maxRateLimitPeriod \<and> newRateLimitPeriod w p = Some q"
  using assms newRateLimitPeriod_le [of w p q]
  by (auto simp: adapt_def NewTicker_def Let_def split: option.splits if_splits)

lemma scaled_close:
  assumes "0 < p" and "p < 2 ^ 63" and "0 < e" and "e < 2 ^ 63"
  shows "\<exists>s. scaledRateLimitPeriod e p = Finite s \<and> 0 < s
    \<and> close_to (c0 * c0 * c0 * c0) (10000000000 / of_int e * of_int p) s"
proof -
  define E :: rat where "E = of_int e"
  define P :: rat where "P = of_int p"
  define T :: rat where "T = 10000000000"
  note c = c0_bounds
  have c0pos: "0 < c0" using c(1) by linarith
  have E: "1 \<le> E" "E \<le> 2 ^ 63" and P: "1 \<le> P" "P \<le> 2 ^ 63"
    using assms by (simp_all add: E_def P_def)
  have T: "0 < T" by (simp add: T_def)
  have lo: "(2::rat) powi (- 1022) \<le> 1 / 2 ^ 100" and hi: "(2::rat) ^ 100 < 2 powi 1023"
    by simp_all
  \<comment> \<open>the conversion of \<open>walkTime\<close>\<close>
  have "2 powi (- 1022) \<le> E" "E < 2 powi 1023"
    using E lo hi by simp_all
  from close_fl [OF this] obtain ef where ef: "fl64 E = Finite ef" "close_to c0 E ef"
    by blast
  from close_pos [OF ef(2)] E c0pos have efpos: "0 < ef" by simp
  \<comment> \<open>the quotient\<close>
  have Epos: "0 < E" using E by linarith
  have cq': "close_to c0 (T / E) (T / ef)"
    using ef(2) Epos c0pos T by (rule close_inv)
  have TE: "T / 2 ^ 63 \<le> T / E" "T / E \<le> T"
    using E T Epos by (simp_all add: field_simps)
  have TEpos: "0 < T / E" using T Epos by simp
  from close_range [OF cq' TE] T c0pos c(2)
  have "T / 2 ^ 63 / 2 \<le> T / ef" "T / ef \<le> 2 * T" by simp_all
  then have "2 powi (- 1022) \<le> T / ef" "T / ef < 2 powi 1023"
    using lo hi by (simp_all add: T_def)
  from close_fl [OF this] obtain q where q: "fl64 (T / ef) = Finite q" "close_to c0 (T / ef) q"
    by blast
  have cq: "close_to (c0 * c0) (T / E) q"
    using cq' q(2) c0pos c0pos by (rule close_trans)
  \<comment> \<open>the conversion of \<open>rateLimitPeriod\<close>\<close>
  have "2 powi (- 1022) \<le> P" "P < 2 powi 1023"
    using P lo hi by simp_all
  from close_fl [OF this] obtain pf where pf: "fl64 P = Finite pf" "close_to c0 P pf"
    by blast
  \<comment> \<open>the product\<close>
  have Ppos: "0 < P" using P by linarith
  have c2pos: "0 < c0 * c0" using c0pos by simp
  have cm: "close_to (c0 * c0 * c0) (T / E * P) (q * pf)"
    using cq pf(2) TEpos Ppos c2pos c0pos by (rule close_mult)
  have TEnn: "0 \<le> T / E" using TEpos by (rule less_imp_le)
  have Tnn: "0 \<le> T" using T by (rule less_imp_le)
  have Pnn: "0 \<le> P" using Ppos by (rule less_imp_le)
  have "T / E \<le> T / E * P"
    using mult_left_mono [OF P(1) TEnn] by (simp only: mult_1_right)
  with TE(1) have xr1: "T / 2 ^ 63 \<le> T / E * P"
    by (rule order_trans)
  have xr2: "T / E * P \<le> T * 2 ^ 63"
    using TE(2) P(2) Tnn Pnn by (rule mult_mono)
  note xr = xr1 xr2
  have c3pos: "0 < c0 * c0 * c0" using c0pos by simp
  from close_range [OF cm xr] T c3pos c(4)
  have "T / 2 ^ 63 / 2 \<le> q * pf" "q * pf \<le> 2 * (T * 2 ^ 63)" by simp_all
  then have "2 powi (- 1022) \<le> q * pf" "q * pf < 2 powi 1023"
    using lo hi by (simp_all add: T_def)
  from close_fl [OF this] obtain s where s: "fl64 (q * pf) = Finite s" "close_to c0 (q * pf) s"
    by blast
  have cs: "close_to (c0 * c0 * c0 * c0) (T / E * P) s"
    using cm s(2) c3pos c0pos by (rule close_trans)
  have xpos: "0 < T / E * P" using TEpos Ppos by (rule mult_pos_pos)
  have c4pos: "0 < c0 * c0 * c0 * c0" using c0pos by simp
  from close_pos [OF cs xpos c4pos] have spos: "0 < s" .
  have "scaledRateLimitPeriod e p = Finite s"
    using ef(1) q(1) pf(1) s(1) efpos
    by (simp add: scaledRateLimitPeriod_def targetWalkTimeF_def targetWalkTime_def
        f64_of_int_def E_def P_def T_def)
  with spos cs show ?thesis
    by (auto simp: E_def P_def T_def)
qed

lemma min_close:
  fixes x s :: rat
  assumes "close_to (c0 * c0 * c0 * c0) x s" and "0 < x"
  shows "\<bar>min s 250000000 - min 250000000 x\<bar> \<le> 1 / 1000000"
proof -
  define c where "c = c0 * c0 * c0 * c0"
  define d :: rat where "d = 1 / 1000000000000000"
  have c1: "c \<le> 1 + d" unfolding c_def d_def using c0_bounds(5) .
  have c0pos: "0 < c0" using c0_bounds(1) by linarith
  then have cpos: "0 < c" unfolding c_def by simp
  from assms(1) have b: "x / c \<le> s" "s \<le> x * c"
    by (simp_all add: close_to_def c_def)
  have "x * c \<le> x * (1 + d)"
    using c1 assms(2) by (intro mult_left_mono) simp_all
  with b(2) have u: "s \<le> x + x * d" by (simp add: algebra_simps)
  have "x / (1 + d) \<le> x / c"
    using c1 cpos assms(2) by (intro divide_left_mono) (simp_all add: d_def)
  moreover have "x * (1 - d) \<le> x / (1 + d)"
  proof -
    have "(1 - d) \<le> 1 / (1 + d)" by (simp add: d_def)
    then have "x * (1 - d) \<le> x * (1 / (1 + d))"
      using assms(2) by (intro mult_left_mono) simp_all
    then show ?thesis by simp
  qed
  ultimately have l: "x - x * d \<le> s" using b(1) by (simp add: algebra_simps)
  show ?thesis
  proof (cases "250000001 \<le> x")
    case True
    then have "250000000 \<le> x - x * d"
      by (simp add: d_def)
    with l True show ?thesis by (simp add: min_def)
  next
    case False
    define eps :: rat where "eps = 1 / 1000000"
    from False have "x * d \<le> eps"
      by (simp add: d_def eps_def)
    with l u have sx: "s - x \<le> eps" "x - s \<le> eps"
      by linarith+
    have "0 \<le> eps" by (simp add: eps_def)
    with sx have "\<bar>min s 250000000 - min 250000000 x\<bar> \<le> eps"
      unfolding min_def abs_le_iff by (auto split: if_splits)
    then show ?thesis by (simp only: eps_def)
  qed
qed

lemma newRateLimitPeriod_positive_walk:
  assumes "0 < p" and "p < 2 ^ 63" and "0 < e" and "e < 2 ^ 63"
  shows "\<exists>z::rat. newRateLimitPeriod e p = Some \<lfloor>z\<rfloor> \<and> 0 \<le> z \<and> z \<le> 250000000
    \<and> \<bar>z - min 250000000 (of_int p * 10000000000 / of_int e)\<bar> \<le> 1 / 1000000"
proof -
  from scaled_close [OF assms] obtain s where s: "scaledRateLimitPeriod e p = Finite s" "0 < s"
    "close_to (c0 * c0 * c0 * c0) (10000000000 / of_int e * of_int p) s"
    by blast
  define z where "z = min s 250000000"
  have z: "0 \<le> z" "z \<le> 250000000" using s(2) by (simp_all add: z_def)
  then have "0 \<le> \<lfloor>z\<rfloor>" "\<lfloor>z\<rfloor> \<le> 250000000"
    by (simp_all add: floor_le_iff) 
  then have f: "- (2 ^ 63) \<le> \<lfloor>z\<rfloor>" "\<lfloor>z\<rfloor> < 2 ^ 63"
    by simp_all
  have n: "newRateLimitPeriod e p = Some \<lfloor>z\<rfloor>"
    using s(1) z(1) f
    by (simp add: newRateLimitPeriod_def maxRateLimitPeriodF_def maxRateLimitPeriod_def
        duration_of_f64_def z_def Let_def)
  have "0 < (10000000000 :: rat) / of_int e * of_int p"
    using assms by simp
  from min_close [OF s(3) this]
  have "\<bar>z - min 250000000 (of_int p * 10000000000 / of_int e)\<bar> \<le> 1 / 1000000"
    by (simp add: z_def mult.commute)
  with n z show ?thesis by blast
qed

lemma fl64_positive_int:
  assumes "0 < p" and "p < 2 ^ 63"
  shows "\<exists>r. fl64 (of_int p) = Finite r \<and> 0 < r"
proof -
  have "(2::rat) powi (- 1022) \<le> 1" "(2::rat) ^ 63 < 2 powi 1023"
    by simp_all
  moreover have "(1::rat) \<le> of_int p" "(of_int p :: rat) < 2 ^ 63"
    using assms by simp_all
  ultimately have "2 powi (- 1022) \<le> (of_int p :: rat)" "(of_int p :: rat) < 2 powi 1023"
    by linarith+
  from close_fl [OF this] obtain r where r: "fl64 (of_int p) = Finite r"
    "close_to c0 (of_int p) r"
    by blast
  have "0 < c0" using c0_bounds(1) by linarith
  with close_pos [OF r(2)] assms(1) have "0 < r" by simp
  with r(1) show ?thesis by blast
qed

lemma newRateLimitPeriod_zero_walk:
  assumes "0 < p" and "p < 2 ^ 63"
  shows "scaledRateLimitPeriod 0 p = PInf"
    and "newRateLimitPeriod 0 p = Some maxRateLimitPeriod"
    and "adapt 0 p = ([LogPassTook 0, LogNewRateLimit maxRateLimitPeriod], Some maxRateLimitPeriod)"
proof -
  from fl64_positive_int [OF assms] obtain r where r: "fl64 (of_int p) = Finite r" "0 < r"
    by blast
  have z: "fl64 0 = Finite 0" by (simp add: fl64_def)
  from r z show 1: "scaledRateLimitPeriod 0 p = PInf"
    by (simp add: scaledRateLimitPeriod_def targetWalkTimeF_def targetWalkTime_def
        f64_of_int_def)
  then show 2: "newRateLimitPeriod 0 p = Some maxRateLimitPeriod"
    by (simp add: newRateLimitPeriod_def maxRateLimitPeriodF_def maxRateLimitPeriod_def
        duration_of_f64_def)
  have "\<not> walk_too_slow 0"
    using z by (simp add: walk_too_slow_def f64_of_int_def targetWalkTimeF_def targetWalkTime_def)
  with 2 show "adapt 0 p =
      ([LogPassTook 0, LogNewRateLimit maxRateLimitPeriod], Some maxRateLimitPeriod)"
    by (simp add: adapt_def NewTicker_def maxRateLimitPeriod_def)
qed

lemma fl64_half: "fl64 (1 / 2) = Finite (1 / 2)"
  using fl64_eval [of "- 1" "1 / 2" 4503599627370496]
  by (simp add: round_ties_even_def Let_def floor_rat_numeral_div)

lemma fl64_third: "fl64 (1 / 3) = Finite (6004799503160661 / 18014398509481984)"
  using fl64_eval [of "- 2" "1 / 3" 6004799503160661]
  by (simp add: round_ties_even_def Let_def floor_rat_numeral_div)

lemma fl64_third_times:
  "fl64 (6004799503160661 / 18014398509481984 * 50000000) = Finite (8947848533333333 / 536870912)"
  using fl64_eval [of 23 "6004799503160661 / 18014398509481984 * 50000000" 8947848533333333]
  by (simp add: round_ties_even_def Let_def floor_rat_numeral_div)

lemma fl64_ints:
  "fl64 2 = Finite 2"
  "fl64 25000000 = Finite 25000000"
  "fl64 50000000 = Finite 50000000"
  "fl64 20000000000 = Finite 20000000000"
  "fl64 30000000000 = Finite 30000000000"
  using fl64_exact_int [of 2] fl64_exact_int [of 25000000] fl64_exact_int [of 50000000]
    fl64_exact_int [of 20000000000] fl64_exact_int [of 30000000000]
  by simp_all

lemmas rate_defs = newRateLimitPeriod_def scaledRateLimitPeriod_def f64_of_int_def
  targetWalkTimeF_def targetWalkTime_def maxRateLimitPeriodF_def maxRateLimitPeriod_def
  duration_of_f64_def

lemma newRateLimitPeriod_slow_walk:
  "newRateLimitPeriod 20000000000 50000000 = Some 25000000"
  using fl64_ints fl64_half by (simp add: rate_defs)

lemma walk_too_slow_example: "walk_too_slow 20000000000"
  using fl64_ints by (simp add: walk_too_slow_def rate_defs)

lemma adapt_slow_walk:
  "adapt 20000000000 50000000 =
     ([LogPassTook 20000000000, LogPassSlow 20000000000 10000000000, LogNewRateLimit 25000000],
      Some 25000000)"
  using newRateLimitPeriod_slow_walk walk_too_slow_example
  by (simp add: adapt_def NewTicker_def targetWalkTime_def)

lemma newRateLimitPeriod_third:
  "newRateLimitPeriod 30000000000 50000000 = Some 16666666"
  using fl64_ints fl64_third fl64_third_times
  by (simp add: rate_defs floor_rat_numeral_div)

text \<open>
  C2, as the code has it. For a current period \<open>p\<close> and a measured pass time \<open>e\<close>,
  both positive int64 counts of nanoseconds, the next period is the whole number of
  nanoseconds \<open>\<lfloor>z\<rfloor>\<close> of a value \<open>z\<close> between 0 and the maximum period that lies
  within a millionth of a nanosecond of
  \<open>min maxRateLimitPeriod (p \<times> targetWalkTime / e)\<close>: the formula is evaluated in
  float64 and the conversion to \<^verbatim>\<open>time.Duration\<close> discards the fraction. With the
  constants of the file (target 10 s, maximum 250 ms), a current period of 50 ms and a
  pass of 20 s, the next period is 25 ms, which is the formula's value exactly, and the
  warning is logged, since 20 / 10 exceeds 1.5.
\<close>

theorem next_period_feedback_law:
  "(0 < p \<and> p < 2 ^ 63 \<and> 0 < e \<and> e < 2 ^ 63 \<longrightarrow>
      (\<exists>z::rat. newRateLimitPeriod e p = Some \<lfloor>z\<rfloor> \<and> 0 \<le> z \<and> z \<le> of_int maxRateLimitPeriod
         \<and> \<bar>z - min (of_int maxRateLimitPeriod) (of_int p * of_int targetWalkTime / of_int e)\<bar>
             \<le> 1 / 1000000))
   \<and> newRateLimitPeriod 20000000000 50000000 = Some 25000000
   \<and> (25000000 :: rat) =
       min (of_int maxRateLimitPeriod) (50000000 * of_int targetWalkTime / 20000000000)
   \<and> walk_too_slow 20000000000
   \<and> adapt 20000000000 50000000 =
       ([LogPassTook 20000000000, LogPassSlow 20000000000 targetWalkTime,
         LogNewRateLimit 25000000], Some 25000000)"
proof -
  have 1: "0 < p \<and> p < 2 ^ 63 \<and> 0 < e \<and> e < 2 ^ 63 \<longrightarrow>
      (\<exists>z::rat. newRateLimitPeriod e p = Some \<lfloor>z\<rfloor> \<and> 0 \<le> z \<and> z \<le> of_int maxRateLimitPeriod
         \<and> \<bar>z - min (of_int maxRateLimitPeriod) (of_int p * of_int targetWalkTime / of_int e)\<bar>
             \<le> 1 / 1000000)"
    using newRateLimitPeriod_positive_walk [of p e]
    by (simp add: maxRateLimitPeriod_def targetWalkTime_def)
  have 2: "(25000000 :: rat) =
       min (of_int maxRateLimitPeriod) (50000000 * of_int targetWalkTime / 20000000000)"
    by (simp add: maxRateLimitPeriod_def targetWalkTime_def)
  from 1 2 newRateLimitPeriod_slow_walk walk_too_slow_example adapt_slow_walk
  show ?thesis by (simp add: targetWalkTime_def)
qed

text \<open>
  The law at a period of 50 ms and a pass of 30 s.
\<close>

theorem next_period_feedback_law_witness:
  "(0::int) < 50000000 \<and> (50000000::int) < 2 ^ 63 \<and> (0::int) < 30000000000
   \<and> (30000000000::int) < 2 ^ 63
   \<and> (\<exists>z::rat. newRateLimitPeriod 30000000000 50000000 = Some \<lfloor>z\<rfloor> \<and> 0 \<le> z
        \<and> \<bar>z - min (of_int maxRateLimitPeriod)
                 (of_int 50000000 * of_int targetWalkTime / of_int 30000000000)\<bar> \<le> 1 / 1000000)"
  using next_period_feedback_law [of 50000000 30000000000]
  by simp blast

text \<open>
  C2 as stated fails: after a pass of 30 s at a period of 50 ms the next period is
  16666666 ns, and \<open>min maxRateLimitPeriod (p \<times> targetWalkTime / e)\<close> is
  16666666 and two thirds.
\<close>

theorem truncated_period_counterexample:
  "newRateLimitPeriod 30000000000 50000000 = Some 16666666
   \<and> (of_int 16666666 :: rat) \<noteq>
       min (of_int maxRateLimitPeriod) (of_int 50000000 * of_int targetWalkTime / of_int 30000000000)"
  using newRateLimitPeriod_third
  by (simp add: maxRateLimitPeriod_def targetWalkTime_def)

section \<open>The steps of the transition system and its invariants\<close>

lemma step_cases [consumes 1, case_names StartOk StartErr StopOk StopErr Init Write WalkErr
    WalkOk Lock Exit Swap Assign Unlock AdaptCrash Adapt Reset Wake GetLock GetCopy GetReturn]:
  assumes "step e s = Some s'"
  obtains
    (StartOk) "e = Start" "mtx s = None" "\<not> running (br s)" "pc s = Idle"
      "s' = s\<lparr>br := (br s)\<lparr>running := True\<rparr>, pc := Spawned\<rparr>"
  | (StartErr) "e = Start" "mtx s = None" "running (br s)" "s' = s"
  | (StopOk) "e = Stop" "mtx s = None" "running (br s)"
      "s' = s\<lparr>br := (br s)\<lparr>pleaseStop := True\<rparr>\<rparr>"
  | (StopErr) "e = Stop" "mtx s = None" "\<not> running (br s)" "s' = s"
  | (Init) "e = LoopInit" "pc s = Spawned"
      "s' = s\<lparr>rateLimitPeriod := initialRateLimitPeriod,
               ticker := NewTicker initialRateLimitPeriod, pc := Scanning, appended := []\<rparr>"
  | (Write) b where "e = WalkWrite b" "pc s = Scanning"
      "s' = s\<lparr>bufs := (bufs s)(walkingBuf (br s) := bufs s (walkingBuf (br s)) @ [b]),
               appended := appended s @ [b], written := written s @ [b]\<rparr>"
  | (WalkErr) err where "e = WalkReturn (Inl err)" "pc s = Scanning"
      "s' = s\<lparr>logs := logs s @ [LogWalkError err], appended := []\<rparr>"
  | (WalkOk) m where "e = WalkReturn (Inr m)" "pc s = Scanning"
      "s' = s\<lparr>pc := Walked m,
               passes := passes s @ [(bufs s (walkingBuf (br s)), appended s, m)]\<rparr>"
  | (Lock) m where "e = LoopLock" "pc s = Walked m" "mtx s = None"
      "s' = s\<lparr>mtx := Some LoopTask, pc := Locked m\<rparr>"
  | (Exit) m where "e = LoopCheck" "pc s = Locked m" "pleaseStop (br s)"
      "s' = s\<lparr>br := observe_stop (br s), ticker := None, mtx := None, pc := Idle\<rparr>"
  | (Swap) m where "e = LoopCheck" "pc s = Locked m" "\<not> pleaseStop (br s)"
      "s' = s\<lparr>br := (br s)\<lparr>readyBuf := walkingBuf (br s), walkingBuf := readyBuf (br s)\<rparr>,
               pc := Swapped m\<rparr>"
  | (Assign) m where "e = LoopAssign" "pc s = Swapped m"
      "s' = s\<lparr>br := (br s)\<lparr>readySockets := Some m\<rparr>, pc := Assigned,
               published := published s @ [(bufs s (readyBuf (br s)), Some m)],
               written := [], written_at := written_at s @ [written s]\<rparr>"
  | (Unlock) "e = LoopUnlock" "pc s = Assigned" "s' = s\<lparr>mtx := None, pc := Adapting\<rparr>"
  | (AdaptCrash) w lg where "e = LoopAdapt w" "pc s = Adapting"
      "adapt w (rateLimitPeriod s) = (lg, None)"
      "s' = s\<lparr>logs := logs s @ lg, ticker := None, pc := Crashed\<rparr>"
  | (Adapt) w lg p where "e = LoopAdapt w" "pc s = Adapting"
      "adapt w (rateLimitPeriod s) = (lg, Some p)"
      "s' = s\<lparr>logs := logs s @ lg, rateLimitPeriod := p, ticker := Some p,
               pc := Resetting w\<rparr>"
  | (Reset) w where "e = LoopReset" "pc s = Resetting w"
      "s' = s\<lparr>bufs := (bufs s)(walkingBuf (br s) := []),
               pc := Sleeping (targetWalkTime - w)\<rparr>"
  | (Wake) d where "e = LoopWake" "pc s = Sleeping d" "s' = s\<lparr>pc := Scanning, appended := []\<rparr>"
  | (GetLock) c buf where "e = GetLock c buf" "mtx s = None" "\<not> get_holds (gets s c)"
      "s' = s\<lparr>mtx := Some (Caller c), gets := (gets s)(c := Holding buf)\<rparr>"
  | (GetCopy) c buf where "e = GetCopy c" "gets s c = Holding buf"
      "s' = s\<lparr>gets := (gets s)(c := Copied buf (buf @ bufs s (readyBuf (br s))))\<rparr>"
  | (GetReturn) c buf buf' where "e = GetReturn c" "gets s c = Copied buf buf'"
      "s' = s\<lparr>mtx := None, gets := (gets s)(c := Returned buf buf' (readySockets (br s)))\<rparr>"
proof (cases e)
  case Start
  from assms Start have m: "mtx s = None"
    by (simp split: if_splits)
  show ?thesis
  proof (cases "running (br s)")
    case True
    with assms Start m have "s' = s"
      by (simp add: start_def)
    with Start m True show ?thesis by (rule StartErr)
  next
    case False
    with assms Start m have "pc s = Idle"
      and "s' = s\<lparr>br := (br s)\<lparr>running := True\<rparr>, pc := Spawned\<rparr>"
      by (simp_all add: start_def split: if_splits)
    with Start m False show ?thesis by (rule StartOk)
  qed
next
  case Stop
  from assms Stop have m: "mtx s = None"
    by (simp split: if_splits)
  show ?thesis
  proof (cases "running (br s)")
    case True
    with assms Stop m have "s' = s\<lparr>br := (br s)\<lparr>pleaseStop := True\<rparr>\<rparr>"
      by (simp add: stop_def)
    with Stop m True show ?thesis by (rule StopOk)
  next
    case False
    with assms Stop m have "s' = s"
      by (simp add: stop_def)
    with Stop m False show ?thesis by (rule StopErr)
  qed
next
  case LoopInit
  with assms have "pc s = Spawned"
    and "s' = s\<lparr>rateLimitPeriod := initialRateLimitPeriod,
               ticker := NewTicker initialRateLimitPeriod, pc := Scanning, appended := []\<rparr>"
    by (simp_all split: if_splits)
  with LoopInit show ?thesis by (rule Init)
next
  case (WalkWrite b)
  with assms have "pc s = Scanning"
    and "s' = s\<lparr>bufs := (bufs s)(walkingBuf (br s) := bufs s (walkingBuf (br s)) @ [b]),
               appended := appended s @ [b], written := written s @ [b]\<rparr>"
    by (simp_all add: walkProcPid_append_def split: if_splits)
  with WalkWrite show ?thesis by (rule Write)
next
  case (WalkReturn r)
  show ?thesis
  proof (cases r)
    case (Inl err)
    with assms WalkReturn have "e = WalkReturn (Inl err)" "pc s = Scanning"
      and "s' = s\<lparr>logs := logs s @ [LogWalkError err], appended := []\<rparr>"
      by (simp_all split: if_splits)
    then show ?thesis by (rule WalkErr)
  next
    case (Inr m)
    with assms WalkReturn have "e = WalkReturn (Inr m)" "pc s = Scanning"
      and "s' = s\<lparr>pc := Walked m,
               passes := passes s @ [(bufs s (walkingBuf (br s)), appended s, m)]\<rparr>"
      by (simp_all split: if_splits)
    then show ?thesis by (rule WalkOk)
  qed
next
  case LoopLock
  with assms obtain m where "pc s = Walked m"
    by (cases "pc s") simp_all
  moreover from this assms LoopLock have "mtx s = None"
    and "s' = s\<lparr>mtx := Some LoopTask, pc := Locked m\<rparr>"
    by (simp_all split: if_splits)
  ultimately show ?thesis using LoopLock by (intro Lock)
next
  case LoopCheck
  with assms obtain m where m: "pc s = Locked m"
    by (cases "pc s") simp_all
  show ?thesis
  proof (cases "pleaseStop (br s)")
    case True
    with assms LoopCheck m
    have "s' = s\<lparr>br := observe_stop (br s), ticker := None, mtx := None, pc := Idle\<rparr>"
      by simp
    with LoopCheck m True show ?thesis by (rule Exit)
  next
    case False
    with assms LoopCheck m
    have "s' = s\<lparr>br := (br s)\<lparr>readyBuf := walkingBuf (br s), walkingBuf := readyBuf (br s)\<rparr>,
               pc := Swapped m\<rparr>"
      by simp
    with LoopCheck m False show ?thesis by (rule Swap)
  qed
next
  case LoopAssign
  with assms obtain m where m: "pc s = Swapped m"
    by (cases "pc s") simp_all
  with assms LoopAssign
  have "s' = s\<lparr>br := (br s)\<lparr>readySockets := Some m\<rparr>, pc := Assigned,
               published := published s @ [(bufs s (readyBuf (br s)), Some m)],
               written := [], written_at := written_at s @ [written s]\<rparr>"
    by simp
  with LoopAssign m show ?thesis by (rule Assign)
next
  case LoopUnlock
  with assms have "pc s = Assigned" and "s' = s\<lparr>mtx := None, pc := Adapting\<rparr>"
    by (simp_all split: if_splits)
  with LoopUnlock show ?thesis by (rule Unlock)
next
  case (LoopAdapt w)
  with assms have p: "pc s = Adapting"
    by (simp split: if_splits)
  obtain lg r where a: "adapt w (rateLimitPeriod s) = (lg, r)"
    by (cases "adapt w (rateLimitPeriod s)")
  show ?thesis
  proof (cases r)
    case None
    with assms LoopAdapt p a
    have "s' = s\<lparr>logs := logs s @ lg, ticker := None, pc := Crashed\<rparr>"
      by simp
    with LoopAdapt p a None show ?thesis by (intro AdaptCrash) simp_all
  next
    case (Some q)
    with assms LoopAdapt p a
    have "s' = s\<lparr>logs := logs s @ lg, rateLimitPeriod := q, ticker := Some q,
               pc := Resetting w\<rparr>"
      by simp
    with LoopAdapt p a Some show ?thesis by (intro Adapt) simp_all
  qed
next
  case LoopReset
  with assms obtain w where w: "pc s = Resetting w"
    by (cases "pc s") simp_all
  with assms LoopReset
  have "s' = s\<lparr>bufs := (bufs s)(walkingBuf (br s) := []),
               pc := Sleeping (targetWalkTime - w)\<rparr>"
    by simp
  with LoopReset w show ?thesis by (rule Reset)
next
  case LoopWake
  with assms obtain d where d: "pc s = Sleeping d"
    by (cases "pc s") simp_all
  with assms LoopWake have "s' = s\<lparr>pc := Scanning, appended := []\<rparr>"
    by simp
  with LoopWake d show ?thesis by (rule Wake)
next
  case (GetLock c buf)
  with assms have "mtx s = None" "\<not> get_holds (gets s c)"
    and "s' = s\<lparr>mtx := Some (Caller c), gets := (gets s)(c := Holding buf)\<rparr>"
    by (cases "gets s c"; simp split: if_splits)+
  with GetLock show ?thesis by (rule that(18))
next
  case (GetCopy c)
  with assms obtain buf where h: "gets s c = Holding buf"
    by (cases "gets s c") simp_all
  with assms GetCopy
  have "s' = s\<lparr>gets := (gets s)(c := Copied buf (buf @ bufs s (readyBuf (br s))))\<rparr>"
    by simp
  with GetCopy h show ?thesis by (rule that(19))
next
  case (GetReturn c)
  with assms obtain buf buf' where h: "gets s c = Copied buf buf'"
    by (cases "gets s c") simp_all
  with assms GetReturn
  have "s' = s\<lparr>mtx := None, gets := (gets s)(c := Returned buf buf' (readySockets (br s)))\<rparr>"
    by simp
  with GetReturn h show ?thesis by (rule that(20))
qed

lemma lock_inv_init: "lock_inv init"
  by (simp add: lock_inv_def init_def newBackgroundReader_def)

lemma lock_inv_step:
  assumes "lock_inv s" and "step e s = Some s'"
  shows "lock_inv s'"
proof (cases e)
  case Start
  with assms show ?thesis
    by (auto simp: lock_inv_def start_def split: if_splits)
next
  case Stop
  with assms show ?thesis
    by (auto simp: lock_inv_def stop_def split: if_splits)
next
  case (WalkReturn r)
  with assms show ?thesis
    by (cases r) (auto simp: lock_inv_def split: if_splits)
next
  case LoopCheck
  with assms show ?thesis
    by (auto simp: lock_inv_def observe_stop_def split: if_splits loop_pc.splits)
next
  case (GetLock c buf)
  with assms show ?thesis
    by (auto simp: lock_inv_def split: if_splits get_call.splits)
next
  case (GetCopy c)
  with assms have h: "get_holds (gets s c)"
    by (auto split: get_call.splits)
  with assms have m: "mtx s = Some (Caller c)"
    by (simp add: lock_inv_def)
  from assms GetCopy h m show ?thesis
    by (auto simp: lock_inv_def split: if_splits get_call.splits)
next
  case (GetReturn c)
  with assms have h: "get_holds (gets s c)"
    by (auto split: get_call.splits)
  with assms have m: "mtx s = Some (Caller c)"
    by (simp add: lock_inv_def)
  from assms GetReturn h m show ?thesis
    by (auto simp: lock_inv_def split: if_splits get_call.splits)
qed (use assms in \<open>auto simp: lock_inv_def walkProcPid_append_def
       split: if_splits loop_pc.splits prod.splits option.splits\<close>)

lemma latest_Nil: "latest [] = ([], None)"
  by (simp add: latest_def)

lemma latest_snoc: "latest (pub @ [x]) = x"
  by (simp add: latest_def)

lemma latest_in: "latest pub \<in> set (([], None) # pub)"
  unfolding latest_def by (rule last_in_set) simp

lemma ready_at_frame:
  assumes "bufs s' = bufs s" "walkingBuf (br s') = walkingBuf (br s)"
    "readyBuf (br s') = readyBuf (br s)" "readySockets (br s') = readySockets (br s)"
    "appended s' = appended s" "passes s' = passes s" "published s' = published s"
  shows "ready_at p s' = ready_at p s"
  using assms by (cases p) (simp_all add: snapshot_def current_def latest_def)

lemma ready_inv_frame:
  assumes "ready_inv s" "pc s' = pc s"
    "bufs s' = bufs s" "walkingBuf (br s') = walkingBuf (br s)"
    "readyBuf (br s') = readyBuf (br s)" "readySockets (br s') = readySockets (br s)"
    "appended s' = appended s" "passes s' = passes s" "published s' = published s"
  shows "ready_inv s'"
  using assms ready_at_frame [of s' s "pc s"] by (simp add: ready_inv_def)

lemma ready_inv_init: "ready_inv init"
  by (simp add: ready_inv_def init_def newBackgroundReader_def snapshot_def current_def latest_def)

lemma ready_inv_step:
  assumes "lock_inv s" and "ready_inv s" and "step e s = Some s'"
  shows "ready_inv s'"
proof (cases e)
  case Start
  with assms show ?thesis
    by (auto simp: ready_inv_def snapshot_def current_def latest_def start_def split: if_splits)
next
  case Stop
  show ?thesis
    by (rule ready_inv_frame [of s]) (use assms Stop in \<open>auto simp: stop_def split: if_splits\<close>)
next
  case (WalkReturn r)
  with assms show ?thesis
    by (cases r) (auto simp: ready_inv_def snapshot_def current_def latest_def split: if_splits)
next
  case (WalkWrite b)
  with assms show ?thesis
    by (auto simp: ready_inv_def lock_inv_def snapshot_def current_def latest_def
        walkProcPid_append_def split: if_splits)
next
  case LoopInit
  with assms show ?thesis
    by (auto simp: ready_inv_def snapshot_def current_def latest_def split: if_splits)
next
  case LoopLock
  with assms show ?thesis
    by (auto simp: ready_inv_def snapshot_def current_def latest_def split: if_splits loop_pc.splits)
next
  case LoopCheck
  with assms show ?thesis
    by (auto simp: ready_inv_def snapshot_def current_def latest_def observe_stop_def
        split: if_splits loop_pc.splits)
next
  case LoopAssign
  with assms show ?thesis
    by (auto simp: ready_inv_def snapshot_def current_def latest_def split: if_splits loop_pc.splits)
next
  case LoopUnlock
  with assms show ?thesis
    by (auto simp: ready_inv_def snapshot_def current_def latest_def split: if_splits)
next
  case LoopReset
  with assms show ?thesis
    by (auto simp: ready_inv_def lock_inv_def snapshot_def current_def latest_def
        split: if_splits loop_pc.splits)
next
  case LoopWake
  with assms show ?thesis
    by (auto simp: ready_inv_def snapshot_def current_def latest_def split: if_splits loop_pc.splits)
next
  case (LoopAdapt w)
  with assms show ?thesis
    by (auto simp: ready_inv_def snapshot_def current_def latest_def
        split: if_splits prod.splits option.splits)
next
  case (GetLock c buf)
  show ?thesis
    by (rule ready_inv_frame [of s]) (use assms GetLock in \<open>auto split: if_splits\<close>)
next
  case (GetCopy c)
  show ?thesis
    by (rule ready_inv_frame [of s]) (use assms GetCopy in \<open>auto split: get_call.splits\<close>)
next
  case (GetReturn c)
  show ?thesis
    by (rule ready_inv_frame [of s]) (use assms GetReturn in \<open>auto split: get_call.splits\<close>)
qed

lemma published_inv_init: "published_inv init"
  by (simp add: published_inv_def init_def)

lemma published_inv_step:
  assumes "ready_inv s" and "published_inv s" and "step e s = Some s'"
  shows "published_inv s'"
  using assms(3)
proof (cases rule: step_cases)
  case (WalkOk m)
  with assms(2) show ?thesis
    unfolding published_inv_def by simp blast
next
  case (Assign m)
  with assms(1) have "(bufs s (readyBuf (br s)), appended s, m) \<in> set (passes s)"
    by (simp add: ready_inv_def)
  with assms(2) Assign show ?thesis
    unfolding published_inv_def by simp blast
qed (use assms(2) in \<open>simp_all add: published_inv_def\<close>)

lemma gets_inv_init: "gets_inv init"
  by (simp add: gets_inv_def init_def)

lemma get_ok_grow: "get_ok pub g \<Longrightarrow> \<not> get_holds g \<Longrightarrow> get_ok (pub @ [x]) g"
  by (cases g) auto

lemma snapshot_current:
  assumes "ready_inv s" "\<not> loop_holds (pc s)"
  shows "snapshot s = latest (published s)"
  using assms by (cases "pc s") (simp_all add: ready_inv_def current_def)

lemma gets_inv_step:
  assumes "lock_inv s" and "ready_inv s" and "gets_inv s" and "step e s = Some s'"
  shows "gets_inv s'"
  using assms(4)
proof (cases rule: step_cases)
  case (Assign m)
  with assms(1) have "\<And>c. \<not> get_holds (gets s c)"
    by (auto simp: lock_inv_def)
  with assms(3) Assign show ?thesis
    by (simp add: gets_inv_def get_ok_grow)
next
  case (GetLock c buf)
  with assms(3) show ?thesis
    by (simp add: gets_inv_def)
next
  case (GetCopy c buf)
  with assms(1) have "mtx s = Some (Caller c)"
    by (simp add: lock_inv_def)
  with assms(1) have "\<not> loop_holds (pc s)"
    by (auto simp: lock_inv_def)
  with assms(2) have "snapshot s = latest (published s)"
    by (rule snapshot_current)
  then have "bufs s (readyBuf (br s)) = fst (latest (published s))"
    unfolding snapshot_def by (metis fst_conv)
  with assms(3) GetCopy show ?thesis
    by (simp add: gets_inv_def)
next
  case (GetReturn c buf buf')
  with assms(1) have "mtx s = Some (Caller c)"
    by (simp add: lock_inv_def)
  with assms(1) have "\<not> loop_holds (pc s)"
    by (auto simp: lock_inv_def)
  with assms(2) have sc: "snapshot s = latest (published s)"
    by (rule snapshot_current)
  from assms(3) have "get_ok (published s) (gets s c)"
    by (simp add: gets_inv_def)
  with GetReturn(2) have b: "buf' = buf @ fst (latest (published s))"
    by simp
  have "latest (published s) \<in> set (([], None) # published s)"
    by (rule latest_in)
  with sc b have "get_ok (published s) (Returned buf buf' (readySockets (br s)))"
    unfolding get_ok.simps snapshot_def by (metis snd_conv)
  with assms(3) GetReturn show ?thesis
    by (simp add: gets_inv_def)
qed (use assms(3) in \<open>simp_all add: gets_inv_def\<close>)

lemma rate_inv_init: "rate_inv init"
  by (simp add: rate_inv_def init_def)

lemma rate_inv_step:
  assumes "rate_inv s" and "step e s = Some s'"
  shows "rate_inv s'"
  using assms(2)
proof (cases rule: step_cases)
  case Init
  then show ?thesis
    by (simp add: rate_inv_def NewTicker_def initialRateLimitPeriod_def maxRateLimitPeriod_def)
next
  case (Adapt w lg p)
  with adapt_Some [of w "rateLimitPeriod s" lg p] show ?thesis
    by (simp add: rate_inv_def)
qed (use assms(1) in \<open>simp_all add: rate_inv_def\<close>)





lemma reader_inv_init: "reader_inv init"
  by (simp add: reader_inv_def lock_inv_init ready_inv_init published_inv_init gets_inv_init
      rate_inv_init)

lemma reader_inv_step: "reader_inv s \<Longrightarrow> step e s = Some s' \<Longrightarrow> reader_inv s'"
  unfolding reader_inv_def
  using lock_inv_step ready_inv_step published_inv_step gets_inv_step rate_inv_step
  by blast

lemma exec_Cons_Some:
  assumes "exec (e # es) s = Some s'"
  obtains s1 where "pc s \<noteq> Crashed" "step e s = Some s1" "exec es s1 = Some s'"
  using assms by (cases "step e s") (auto split: if_splits)

lemma reader_inv_exec: "reader_inv s \<Longrightarrow> exec es s = Some s' \<Longrightarrow> reader_inv s'"
proof (induction es arbitrary: s)
  case Nil
  then show ?case by simp
next
  case (Cons e es)
  from Cons.prems(2) obtain s1 where "step e s = Some s1" "exec es s1 = Some s'"
    by (rule exec_Cons_Some)
  with Cons.IH [of s1] Cons.prems(1) reader_inv_step show ?case by blast
qed

lemma reader_inv_reachable: "exec es init = Some s \<Longrightarrow> reader_inv s"
  using reader_inv_init by (rule reader_inv_exec)

lemma exec_append:
  "exec (es1 @ es2) s = (case exec es1 s of None \<Rightarrow> None | Some s1 \<Rightarrow> exec es2 s1)"
  by (induction es1 arbitrary: s) (auto split: option.splits)

lemma exec_writes:
  "pc s = Scanning \<Longrightarrow>
   exec (map WalkWrite ws) s =
     Some (s\<lparr>bufs := (bufs s)(walkingBuf (br s) := bufs s (walkingBuf (br s)) @ ws),
             appended := appended s @ ws, written := written s @ ws\<rparr>)"
proof (induction ws arbitrary: s)
  case Nil
  then show ?case by simp
next
  case (Cons b ws)
  let ?s1 = "s\<lparr>bufs := (bufs s)(walkingBuf (br s) := bufs s (walkingBuf (br s)) @ [b]),
               appended := appended s @ [b], written := written s @ [b]\<rparr>"
  have "pc ?s1 = Scanning" using Cons.prems by simp
  from Cons.IH [OF this] Cons.prems show ?case
    by - (cases s, simp add: fun_eq_iff walkProcPid_append_def)
qed

lemma failed_walks:
  assumes "walkingBuf (br s) \<noteq> readyBuf (br s)" and "pc s = Scanning"
    and "exec es s = Some s'" and "no_walk_succeeds es"
  shows "pc s' = Scanning
       \<and> walkingBuf (br s') = walkingBuf (br s) \<and> readyBuf (br s') = readyBuf (br s)
       \<and> readySockets (br s') = readySockets (br s) \<and> running (br s') = running (br s)
       \<and> bufs s' (readyBuf (br s)) = bufs s (readyBuf (br s))
       \<and> bufs s' (walkingBuf (br s)) = bufs s (walkingBuf (br s)) @ walk_writes es
       \<and> published s' = published s \<and> passes s' = passes s
       \<and> logs s' = logs s @ map LogWalkError (walk_errors es)"
  using assms
proof (induction es arbitrary: s)
  case Nil
  then show ?case by simp
next
  case (Cons e es)
  from Cons.prems(3) obtain s1 where st: "step e s = Some s1" and ex: "exec es s1 = Some s'"
    by (rule exec_Cons_Some)
  note IH = Cons.IH [of s1, OF _ _ ex]
  from st show ?case
  proof (cases rule: step_cases)
    case StartOk
    with Cons.prems(2) show ?thesis by simp
  next
    case StartErr
    with Cons.prems IH show ?thesis by simp
  next
    case StopOk
    with Cons.prems IH show ?thesis by simp
  next
    case StopErr
    with Cons.prems IH show ?thesis by simp
  next
    case (Write b)
    with Cons.prems IH show ?thesis by simp
  next
    case (WalkErr err)
    with Cons.prems IH show ?thesis by simp
  next
    case (WalkOk m)
    with Cons.prems(4) show ?thesis by simp
  next
    case (GetLock c buf)
    with Cons.prems IH show ?thesis by simp
  next
    case (GetCopy c buf)
    with Cons.prems IH show ?thesis by simp
  next
    case (GetReturn c buf buf')
    with Cons.prems IH show ?thesis by simp
  qed (use Cons.prems(2) in simp_all)
qed










lemmas exec_simps = init_def newBackgroundReader_def start_def stop_def observe_stop_def
  NewTicker_def initialRateLimitPeriod_def walkProcPid_append_def

section \<open>Bounds of the rate limit\<close>

text \<open>
  C3, as the code has it. The recomputed period is never above
  \<^verbatim>\<open>maxRateLimitPeriod\<close>: whatever lines 111 and 112 compute is at most the maximum,
  they compute a value for every positive current period and every pass time that is
  not negative, and after every Adapting step of an execution the period of the reader
  is at most the maximum. The initial period is no lower bound.
\<close>

theorem period_at_most_maximum:
  "(0 < p \<and> p < 2 ^ 63 \<and> 0 \<le> e \<and> e < 2 ^ 63 \<longrightarrow>
      (\<exists>n. newRateLimitPeriod e p = Some n \<and> n \<le> maxRateLimitPeriod))
   \<and> (newRateLimitPeriod w q = Some n \<longrightarrow> n \<le> maxRateLimitPeriod)
   \<and> (exec es init = Some s \<and> step (LoopAdapt w) s = Some s' \<longrightarrow>
        rateLimitPeriod s' \<le> maxRateLimitPeriod)"
proof -
  have 1: "0 < p \<and> p < 2 ^ 63 \<and> 0 \<le> e \<and> e < 2 ^ 63 \<longrightarrow>
      (\<exists>n. newRateLimitPeriod e p = Some n \<and> n \<le> maxRateLimitPeriod)"
  proof (cases "e = 0")
    case True
    then show ?thesis
      using newRateLimitPeriod_zero_walk(2) [of p] by (simp add: maxRateLimitPeriod_def)
  next
    case False
    show ?thesis
    proof
      assume a: "0 < p \<and> p < 2 ^ 63 \<and> 0 \<le> e \<and> e < 2 ^ 63"
      with False have "0 < e" by simp
      with a newRateLimitPeriod_positive_walk [of p e] obtain z :: rat
        where z: "newRateLimitPeriod e p = Some \<lfloor>z\<rfloor>" "0 \<le> z" "z \<le> 250000000"
        by blast
      then have "\<lfloor>z\<rfloor> \<le> maxRateLimitPeriod"
        by (simp add: floor_le_iff maxRateLimitPeriod_def)
      with z(1) show "\<exists>n. newRateLimitPeriod e p = Some n \<and> n \<le> maxRateLimitPeriod"
        by blast
    qed
  qed
  have 2: "newRateLimitPeriod w q = Some n \<longrightarrow> n \<le> maxRateLimitPeriod"
    using newRateLimitPeriod_le by blast
  have 3: "exec es init = Some s \<and> step (LoopAdapt w) s = Some s' \<longrightarrow>
        rateLimitPeriod s' \<le> maxRateLimitPeriod"
  proof
    assume a: "exec es init = Some s \<and> step (LoopAdapt w) s = Some s'"
    then have "exec es init = Some s" by simp
    then have "reader_inv s" by (rule reader_inv_reachable)
    then have r: "rate_inv s" by (simp add: reader_inv_def)
    from a have st: "step (LoopAdapt w) s = Some s'" by simp
    from st show "rateLimitPeriod s' \<le> maxRateLimitPeriod"
    proof (cases rule: step_cases)
      case (AdaptCrash v lg)
      with r show ?thesis by (simp add: rate_inv_def)
    next
      case (Adapt v lg t)
      with adapt_Some [of v "rateLimitPeriod s" lg t] show ?thesis by simp
    qed simp_all
  qed
  from 1 2 3 show ?thesis by blast
qed

text \<open>
  The bound at the initial period and a pass of 20 s, from the first pass of a started
  reader.
\<close>

theorem period_at_most_maximum_witness:
  "(0::int) < 50000000 \<and> (50000000::int) < 2 ^ 63 \<and> (0::int) \<le> 20000000000
   \<and> (20000000000::int) < 2 ^ 63
   \<and> newRateLimitPeriod 20000000000 50000000 = Some 25000000
   \<and> 25000000 \<le> maxRateLimitPeriod
   \<and> exec [Start, LoopInit, WalkReturn (Inr Map.empty), LoopLock, LoopCheck, LoopAssign,
           LoopUnlock] init \<noteq> None
   \<and> map_option rateLimitPeriod
       (step (LoopAdapt 20000000000)
         (the (exec [Start, LoopInit, WalkReturn (Inr Map.empty), LoopLock, LoopCheck,
            LoopAssign, LoopUnlock] init)))
     = Some 25000000"
  using period_at_most_maximum [of 50000000 20000000000 20000000000 50000000 25000000
      "[Start, LoopInit, WalkReturn (Inr Map.empty), LoopLock, LoopCheck, LoopAssign, LoopUnlock]"
      "the (exec [Start, LoopInit, WalkReturn (Inr Map.empty), LoopLock, LoopCheck, LoopAssign,
         LoopUnlock] init)"
      "the (step (LoopAdapt 20000000000)
         (the (exec [Start, LoopInit, WalkReturn (Inr Map.empty), LoopLock, LoopCheck,
            LoopAssign, LoopUnlock] init)))"]
    newRateLimitPeriod_slow_walk adapt_slow_walk
  by (simp add: init_def newBackgroundReader_def start_def NewTicker_def
      initialRateLimitPeriod_def maxRateLimitPeriod_def)

text \<open>
  C3 as stated fails: the first pass of a started reader, taking 20 s, leaves a period of
  25 ms, which is below \<^verbatim>\<open>initialRateLimitPeriod\<close>.
\<close>

theorem period_below_initial_counterexample:
  "newRateLimitPeriod 20000000000 initialRateLimitPeriod = Some 25000000
   \<and> 25000000 < initialRateLimitPeriod
   \<and> map_option rateLimitPeriod
       (exec [Start, LoopInit, WalkReturn (Inr Map.empty), LoopLock, LoopCheck, LoopAssign,
              LoopUnlock, LoopAdapt 20000000000] init) = Some 25000000"
  using newRateLimitPeriod_slow_walk adapt_slow_walk
  by (simp add: init_def newBackgroundReader_def start_def NewTicker_def
      initialRateLimitPeriod_def)

text \<open>
  C6. When the measured pass time is zero, the next period is \<^verbatim>\<open>maxRateLimitPeriod\<close>,
  for every positive int64 current period: the quotient is the float64 infinity, and
  \<^verbatim>\<open>math.Min\<close> replaces it by the maximum before the conversion to
  \<^verbatim>\<open>time.Duration\<close>. So the Adapting step of the loop, wherever an execution reaches
  it, re-arms the ticker with the maximum period and logs no warning.
\<close>

theorem zero_walk_time_gives_maximum:
  "(0 < p \<and> p < 2 ^ 63 \<longrightarrow>
      newRateLimitPeriod 0 p = Some maxRateLimitPeriod
      \<and> adapt 0 p =
          ([LogPassTook 0, LogNewRateLimit maxRateLimitPeriod], Some maxRateLimitPeriod))
   \<and> (exec es init = Some s \<and> pc s = Adapting \<longrightarrow>
        step (LoopAdapt 0) s =
          Some (s\<lparr>logs := logs s @ [LogPassTook 0, LogNewRateLimit maxRateLimitPeriod],
                  rateLimitPeriod := maxRateLimitPeriod, ticker := Some maxRateLimitPeriod,
                  pc := Resetting 0\<rparr>))"
proof -
  have 1: "0 < p \<and> p < 2 ^ 63 \<longrightarrow>
      newRateLimitPeriod 0 p = Some maxRateLimitPeriod
      \<and> adapt 0 p =
          ([LogPassTook 0, LogNewRateLimit maxRateLimitPeriod], Some maxRateLimitPeriod)"
    using newRateLimitPeriod_zero_walk [of p] by blast
  have 2: "exec es init = Some s \<and> pc s = Adapting \<longrightarrow>
        step (LoopAdapt 0) s =
          Some (s\<lparr>logs := logs s @ [LogPassTook 0, LogNewRateLimit maxRateLimitPeriod],
                  rateLimitPeriod := maxRateLimitPeriod, ticker := Some maxRateLimitPeriod,
                  pc := Resetting 0\<rparr>)"
  proof
    assume a: "exec es init = Some s \<and> pc s = Adapting"
    then have "exec es init = Some s" by simp
    then have "reader_inv s" by (rule reader_inv_reachable)
    with a have "0 < rateLimitPeriod s" "rateLimitPeriod s \<le> maxRateLimitPeriod"
      by (simp_all add: reader_inv_def rate_inv_def)
    then have "0 < rateLimitPeriod s" "rateLimitPeriod s < 2 ^ 63"
      by (simp_all add: maxRateLimitPeriod_def)
    from newRateLimitPeriod_zero_walk(3) [OF this] a
    show "step (LoopAdapt 0) s =
          Some (s\<lparr>logs := logs s @ [LogPassTook 0, LogNewRateLimit maxRateLimitPeriod],
                  rateLimitPeriod := maxRateLimitPeriod, ticker := Some maxRateLimitPeriod,
                  pc := Resetting 0\<rparr>)"
      by simp
  qed
  from 1 2 show ?thesis by blast
qed

text \<open>
  The first pass of a started reader, measured as taking no time.
\<close>

theorem zero_walk_time_gives_maximum_witness:
  "(0::int) < 50000000 \<and> (50000000::int) < 2 ^ 63
   \<and> newRateLimitPeriod 0 50000000 = Some maxRateLimitPeriod
   \<and> exec [Start, LoopInit, WalkReturn (Inr Map.empty), LoopLock, LoopCheck, LoopAssign,
           LoopUnlock] init \<noteq> None
   \<and> pc (the (exec [Start, LoopInit, WalkReturn (Inr Map.empty), LoopLock, LoopCheck,
           LoopAssign, LoopUnlock] init)) = Adapting
   \<and> map_option (\<lambda>s. (pc s, rateLimitPeriod s, ticker s, logs s))
       (step (LoopAdapt 0)
         (the (exec [Start, LoopInit, WalkReturn (Inr Map.empty), LoopLock, LoopCheck,
            LoopAssign, LoopUnlock] init)))
     = Some (Resetting 0, maxRateLimitPeriod, Some maxRateLimitPeriod,
             [LogPassTook 0, LogNewRateLimit maxRateLimitPeriod])"
  using zero_walk_time_gives_maximum [of 50000000
      "[Start, LoopInit, WalkReturn (Inr Map.empty), LoopLock, LoopCheck, LoopAssign, LoopUnlock]"
      "the (exec [Start, LoopInit, WalkReturn (Inr Map.empty), LoopLock, LoopCheck, LoopAssign,
         LoopUnlock] init)"]
  by (simp add: init_def newBackgroundReader_def start_def NewTicker_def
      initialRateLimitPeriod_def)

section \<open>Published snapshots\<close>




text \<open>
  C9. As long as no pass has published, whatever the loop, the lifecycle calls and other
  callers have done since the constructor, a finished call of \<^verbatim>\<open>getWalkedProcPid\<close>
  has appended nothing to its caller's buffer and returned the nil map, and so does a
  call made now.
\<close>

theorem unpublished_reader_returns_nothing:
  assumes "exec es init = Some s" and "published s = []"
  shows "(gets s c = Returned buf buf' m \<longrightarrow> buf' = buf \<and> m = None)
       \<and> (mtx s = None \<longrightarrow> fst (getWalkedProcPid (br s) (bufs s) buf0) = (buf0, None))"
proof -
  from assms(1) have i: "reader_inv s" by (rule reader_inv_reachable)
  then have "get_ok (published s) (gets s c)"
    by (simp add: reader_inv_def gets_inv_def)
  with assms(2) have 1: "gets s c = Returned buf buf' m \<longrightarrow> buf' = buf \<and> m = None"
    by auto
  have 2: "mtx s = None \<longrightarrow> fst (getWalkedProcPid (br s) (bufs s) buf0) = (buf0, None)"
  proof
    assume "mtx s = None"
    with i have "\<not> loop_holds (pc s)" by (simp add: reader_inv_def lock_inv_def)
    with i have "snapshot s = latest (published s)"
      by (simp add: reader_inv_def snapshot_current)
    with assms(2) show "fst (getWalkedProcPid (br s) (bufs s) buf0) = (buf0, None)"
      by (simp add: latest_Nil snapshot_def getWalkedProcPid_def)
  qed
  from 1 2 show ?thesis by blast
qed

text \<open>
  A call during the first pass of a started reader, after the walk has written a byte.
\<close>

theorem unpublished_reader_returns_nothing_witness:
  "exec [Start, LoopInit, WalkWrite 65, GetLock 0 [1], GetCopy 0, GetReturn 0] init \<noteq> None
   \<and> published (the (exec [Start, LoopInit, WalkWrite 65, GetLock 0 [1], GetCopy 0,
        GetReturn 0] init)) = []
   \<and> gets (the (exec [Start, LoopInit, WalkWrite 65, GetLock 0 [1], GetCopy 0,
        GetReturn 0] init)) 0 = Returned [1] [1] None
   \<and> mtx (the (exec [Start, LoopInit, WalkWrite 65, GetLock 0 [1], GetCopy 0,
        GetReturn 0] init)) = None
   \<and> fst (getWalkedProcPid
        (br (the (exec [Start, LoopInit, WalkWrite 65, GetLock 0 [1], GetCopy 0,
           GetReturn 0] init)))
        (bufs (the (exec [Start, LoopInit, WalkWrite 65, GetLock 0 [1], GetCopy 0,
           GetReturn 0] init))) [2, 3]) = ([2, 3], None)"
  using unpublished_reader_returns_nothing [of "[Start, LoopInit, WalkWrite 65, GetLock 0 [1],
      GetCopy 0, GetReturn 0]"
      "the (exec [Start, LoopInit, WalkWrite 65, GetLock 0 [1], GetCopy 0, GetReturn 0] init)"
      0 "[1]" "[1]" None "[2, 3]"]
  by (simp add: exec_simps getWalkedProcPid_def)

text \<open>
  C10. \<^verbatim>\<open>getWalkedProcPid\<close> returns the caller's buffer with the ready buffer's bytes
  appended after the caller's own, and the ready map, and leaves the reader and both its
  buffers as they were. In the transition system the three steps of a call, run from a
  state where the lock is free, change nothing but the record of that call, and each
  step of a call, wherever it runs, leaves the reader's fields, both buffers, the loop's
  position and the publications unchanged. The caller's buffer is the caller's own: the
  reader hands out neither of its two buffers.
\<close>

theorem getWalkedProcPid_frame:
  "getWalkedProcPid b st buf = ((buf @ st (readyBuf b), readySockets b), b, st)
   \<and> (pc s \<noteq> Crashed \<and> mtx s = None \<and> gets s c = NoCall \<longrightarrow>
        exec [GetLock c buf, GetCopy c, GetReturn c] s =
          Some (s\<lparr>gets := (gets s)(c := Returned buf (buf @ bufs s (readyBuf (br s)))
                                          (readySockets (br s)))\<rparr>))
   \<and> ((e = GetLock c buf \<or> e = GetCopy c \<or> e = GetReturn c) \<and> step e s = Some s' \<longrightarrow>
        br s' = br s \<and> bufs s' = bufs s \<and> pc s' = pc s \<and> published s' = published s)"
proof -
  have 1: "getWalkedProcPid b st buf = ((buf @ st (readyBuf b), readySockets b), b, st)"
    by (simp add: getWalkedProcPid_def)
  have 2: "pc s \<noteq> Crashed \<and> mtx s = None \<and> gets s c = NoCall \<longrightarrow>
        exec [GetLock c buf, GetCopy c, GetReturn c] s =
          Some (s\<lparr>gets := (gets s)(c := Returned buf (buf @ bufs s (readyBuf (br s)))
                                          (readySockets (br s)))\<rparr>)"
    by (cases s) simp
  have 3: "(e = GetLock c buf \<or> e = GetCopy c \<or> e = GetReturn c) \<and> step e s = Some s' \<longrightarrow>
        br s' = br s \<and> bufs s' = bufs s \<and> pc s' = pc s \<and> published s' = published s"
    by (auto split: if_splits get_call.splits)
  from 1 2 3 show ?thesis by blast
qed

text \<open>
  A call with the buffer 1, 2 on a reader whose ready buffer holds 9, and a call on the
  fresh system.
\<close>

theorem getWalkedProcPid_frame_witness:
  "getWalkedProcPid (fst newBackgroundReader) ((snd newBackgroundReader)(Buf1 := [9])) [1, 2] =
     (([1, 2, 9], None), fst newBackgroundReader, (snd newBackgroundReader)(Buf1 := [9]))
   \<and> pc init \<noteq> Crashed \<and> mtx init = None \<and> gets init 0 = NoCall
   \<and> exec [GetLock 0 [1, 2], GetCopy 0, GetReturn 0] init =
       Some (init\<lparr>gets := (gets init)(0 := Returned [1, 2] [1, 2] None)\<rparr>)
   \<and> step (GetLock 0 [1, 2]) init = Some (init\<lparr>mtx := Some (Caller 0),
         gets := (gets init)(0 := Holding [1, 2])\<rparr>)
   \<and> br (init\<lparr>mtx := Some (Caller 0), gets := (gets init)(0 := Holding [1, 2])\<rparr>) = br init"
  using getWalkedProcPid_frame [of "fst newBackgroundReader"
      "(snd newBackgroundReader)(Buf1 := [9])" "[1, 2]" init 0 "GetLock 0 [1, 2]"
      "init\<lparr>mtx := Some (Caller 0), gets := (gets init)(0 := Holding [1, 2])\<rparr>"]
  by (simp add: exec_simps)

section \<open>Failed walks and stopping\<close>

text \<open>
  C5. From any reachable state in which the loop is scanning, let any events follow in
  which no walk returns successfully: walks that write and fail, in any number, with
  lifecycle calls and callers' steps in between. Then the loop is scanning again, still
  running; the ready buffer pointer, the ready map, the ready buffer's bytes and the
  list of publications are what they were; the log has grown by one error line for each
  failed walk; and a further failure is again only logged.
\<close>

theorem failed_pass_publishes_nothing:
  assumes "exec es0 init = Some s" and "pc s = Scanning"
    and "exec es s = Some s'" and "no_walk_succeeds es"
  shows "pc s' = Scanning \<and> running (br s') = running (br s)
       \<and> readyBuf (br s') = readyBuf (br s) \<and> readySockets (br s') = readySockets (br s)
       \<and> snapshot s' = snapshot s \<and> published s' = published s
       \<and> logs s' = logs s @ map LogWalkError (walk_errors es)
       \<and> step (WalkReturn (Inl err)) s' =
           Some (s'\<lparr>logs := logs s' @ [LogWalkError err], appended := []\<rparr>)"
proof -
  from assms(1) have "reader_inv s" by (rule reader_inv_reachable)
  then have "walkingBuf (br s) \<noteq> readyBuf (br s)"
    by (simp add: reader_inv_def lock_inv_def)
  from failed_walks [OF this assms(2,3,4)] show ?thesis
    by (simp add: snapshot_def)
qed

text \<open>
  Two failed walks, with a stop between them, after a pass that published.
\<close>

theorem failed_pass_publishes_nothing_witness:
  "exec [Start, LoopInit, WalkWrite 65, WalkReturn (Inr [1 \<mapsto> 7]), LoopLock, LoopCheck,
         LoopAssign, LoopUnlock, LoopAdapt 20000000000, LoopReset, LoopWake] init \<noteq> None
   \<and> pc (the (exec [Start, LoopInit, WalkWrite 65, WalkReturn (Inr [1 \<mapsto> 7]), LoopLock,
         LoopCheck, LoopAssign, LoopUnlock, LoopAdapt 20000000000, LoopReset, LoopWake] init))
       = Scanning
   \<and> no_walk_succeeds [WalkWrite 66, WalkReturn (Inl ''e1''), Stop, WalkWrite 67,
         WalkReturn (Inl ''e2'')]
   \<and> map_option (\<lambda>s. (pc s, snapshot s, published s, logs s))
       (exec [WalkWrite 66, WalkReturn (Inl ''e1''), Stop, WalkWrite 67, WalkReturn (Inl ''e2'')]
         (the (exec [Start, LoopInit, WalkWrite 65, WalkReturn (Inr [1 \<mapsto> 7]), LoopLock,
           LoopCheck, LoopAssign, LoopUnlock, LoopAdapt 20000000000, LoopReset, LoopWake] init)))
       = Some (Scanning, ([65], Some [1 \<mapsto> 7]), [([65], Some [1 \<mapsto> 7])],
               [LogPassTook 20000000000, LogPassSlow 20000000000 10000000000,
                LogNewRateLimit 25000000, LogWalkError ''e1'', LogWalkError ''e2''])"
  using failed_pass_publishes_nothing [of "[Start, LoopInit, WalkWrite 65,
      WalkReturn (Inr [1 \<mapsto> 7]), LoopLock, LoopCheck, LoopAssign, LoopUnlock,
      LoopAdapt 20000000000, LoopReset, LoopWake]"
      "the (exec [Start, LoopInit, WalkWrite 65, WalkReturn (Inr [1 \<mapsto> 7]), LoopLock,
         LoopCheck, LoopAssign, LoopUnlock, LoopAdapt 20000000000, LoopReset, LoopWake] init)"
      "[WalkWrite 66, WalkReturn (Inl ''e1''), Stop, WalkWrite 67, WalkReturn (Inl ''e2'')]"
      "the (exec [WalkWrite 66, WalkReturn (Inl ''e1''), Stop, WalkWrite 67,
         WalkReturn (Inl ''e2'')]
         (the (exec [Start, LoopInit, WalkWrite 65, WalkReturn (Inr [1 \<mapsto> 7]), LoopLock,
           LoopCheck, LoopAssign, LoopUnlock, LoopAdapt 20000000000, LoopReset, LoopWake] init)))"
      "''e3''"]
  by (simp add: exec_simps adapt_slow_walk snapshot_def)

text \<open>
  C8. When a walk fails after appending bytes, the loop is scanning again with the same
  walking buffer still holding those bytes after its earlier contents, so the next walk
  appends to them: a next walk that returns successfully hands over the old contents,
  the failed walk's bytes and its own. The same holds with other tasks' events in
  between. A step changes a buffer only by a walk's write, which appends one byte, or
  by the reset of line 118, which is enabled only after a publication.
\<close>

theorem failed_walk_leaves_bytes:
  "(pc s = Scanning \<longrightarrow>
      (\<exists>s1 s2. exec (map WalkWrite ws @ [WalkReturn (Inl err)]) s = Some s1
         \<and> pc s1 = Scanning \<and> walkingBuf (br s1) = walkingBuf (br s)
         \<and> bufs s1 (walkingBuf (br s1)) = bufs s (walkingBuf (br s)) @ ws
         \<and> exec (map WalkWrite ws' @ [WalkReturn (Inr m)]) s1 = Some s2
         \<and> passes s2 = passes s @ [(bufs s (walkingBuf (br s)) @ ws @ ws', ws', m)]))
   \<and> (pc s = Scanning \<and> walkingBuf (br s) \<noteq> readyBuf (br s) \<and> exec es s = Some s'
        \<and> no_walk_succeeds es \<longrightarrow>
      bufs s' (walkingBuf (br s')) = bufs s (walkingBuf (br s)) @ walk_writes es)
   \<and> (step e t = Some t' \<and> bufs t' a \<noteq> bufs t a \<longrightarrow>
      (\<exists>b. e = WalkWrite b \<and> pc t = Scanning \<and> bufs t' a = bufs t a @ [b])
      \<or> (\<exists>w. e = LoopReset \<and> pc t = Resetting w \<and> bufs t' a = []))"
proof -
  have 1: "pc s = Scanning \<longrightarrow>
      (\<exists>s1 s2. exec (map WalkWrite ws @ [WalkReturn (Inl err)]) s = Some s1
         \<and> pc s1 = Scanning \<and> walkingBuf (br s1) = walkingBuf (br s)
         \<and> bufs s1 (walkingBuf (br s1)) = bufs s (walkingBuf (br s)) @ ws
         \<and> exec (map WalkWrite ws' @ [WalkReturn (Inr m)]) s1 = Some s2
         \<and> passes s2 = passes s @ [(bufs s (walkingBuf (br s)) @ ws @ ws', ws', m)])"
    by (simp add: exec_append exec_writes)
  have 2: "pc s = Scanning \<and> walkingBuf (br s) \<noteq> readyBuf (br s) \<and> exec es s = Some s'
        \<and> no_walk_succeeds es \<longrightarrow>
      bufs s' (walkingBuf (br s')) = bufs s (walkingBuf (br s)) @ walk_writes es"
    using failed_walks [of s es s'] by simp
  have 3: "step e t = Some t' \<and> bufs t' a \<noteq> bufs t a \<longrightarrow>
      (\<exists>b. e = WalkWrite b \<and> pc t = Scanning \<and> bufs t' a = bufs t a @ [b])
      \<or> (\<exists>w. e = LoopReset \<and> pc t = Resetting w \<and> bufs t' a = [])"
  proof
    assume a: "step e t = Some t' \<and> bufs t' a \<noteq> bufs t a"
    then have "step e t = Some t'" by simp
    then show "(\<exists>b. e = WalkWrite b \<and> pc t = Scanning \<and> bufs t' a = bufs t a @ [b])
      \<or> (\<exists>w. e = LoopReset \<and> pc t = Resetting w \<and> bufs t' a = [])"
      by (cases rule: step_cases) (use a in \<open>auto split: if_splits\<close>)
  qed
  from 1 2 3 show ?thesis by blast
qed

text \<open>
  A walk that fails after writing 2, 3 to a buffer holding 1, then a walk that writes 4.
\<close>

theorem failed_walk_leaves_bytes_witness:
  "pc (the (exec [Start, LoopInit, WalkWrite 1] init)) = Scanning
   \<and> (\<exists>s1 s2. exec (map WalkWrite [2, 3] @ [WalkReturn (Inl ''e'')])
           (the (exec [Start, LoopInit, WalkWrite 1] init)) = Some s1
         \<and> pc s1 = Scanning \<and> bufs s1 (walkingBuf (br s1)) = [1, 2, 3]
         \<and> exec (map WalkWrite [4] @ [WalkReturn (Inr [1 \<mapsto> 7])]) s1 = Some s2
         \<and> passes s2 = [([1, 2, 3, 4], [4], [1 \<mapsto> 7])])"
  using failed_walk_leaves_bytes [of "the (exec [Start, LoopInit, WalkWrite 1] init)"
      "[2, 3]" "''e''" "[4]" "[1 \<mapsto> 7]" "[]" "the (exec [Start, LoopInit, WalkWrite 1] init)"
      Start init init Buf0]
  by (simp add: exec_simps)

text \<open>
  C7, as the code has it. With a stop pending while a walk is in flight, the loop exits
  as soon as that walk returns successfully and the loop takes the lock: it clears
  \<^verbatim>\<open>running\<close> and \<^verbatim>\<open>pleaseStop\<close>, stops the ticker and publishes nothing. A
  \<^verbatim>\<open>start\<close> then succeeds, and the new loop's first successful pass publishes a new
  snapshot. The stop check of line 84 exits whenever \<^verbatim>\<open>pleaseStop\<close> is set, and no
  other step clears \<^verbatim>\<open>pleaseStop\<close>: a pending stop stays pending until that check.
\<close>

theorem stop_honoured_at_stop_check:
  "(pc s = Scanning \<and> mtx s = None \<and> pleaseStop (br s) \<longrightarrow>
      (\<exists>s1 s2. exec (map WalkWrite ws @ [WalkReturn (Inr m), LoopLock, LoopCheck]) s = Some s1
         \<and> pc s1 = Idle \<and> \<not> running (br s1) \<and> \<not> pleaseStop (br s1) \<and> ticker s1 = None
         \<and> mtx s1 = None \<and> published s1 = published s
         \<and> fst (start (br s1)) = Inr ()
         \<and> exec (Start # LoopInit # map WalkWrite ws' @
                  [WalkReturn (Inr m'), LoopLock, LoopCheck, LoopAssign, LoopUnlock]) s1 = Some s2
         \<and> running (br s2) \<and> pc s2 = Adapting
         \<and> published s2 = published s @ [snapshot s2] \<and> snd (snapshot s2) = Some m'))
   \<and> (pc t = Locked m \<and> pleaseStop (br t) \<longrightarrow>
        step LoopCheck t =
          Some (t\<lparr>br := (br t)\<lparr>pleaseStop := False, running := False\<rparr>, ticker := None,
                  mtx := None, pc := Idle\<rparr>))
   \<and> (step e t = Some t' \<and> pleaseStop (br t) \<and> \<not> pleaseStop (br t') \<longrightarrow>
        e = LoopCheck \<and> (\<exists>m. pc t = Locked m) \<and> pc t' = Idle \<and> \<not> running (br t'))"
proof -
  have 1: "pc s = Scanning \<and> mtx s = None \<and> pleaseStop (br s) \<longrightarrow>
      (\<exists>s1 s2. exec (map WalkWrite ws @ [WalkReturn (Inr m), LoopLock, LoopCheck]) s = Some s1
         \<and> pc s1 = Idle \<and> \<not> running (br s1) \<and> \<not> pleaseStop (br s1) \<and> ticker s1 = None
         \<and> mtx s1 = None \<and> published s1 = published s
         \<and> fst (start (br s1)) = Inr ()
         \<and> exec (Start # LoopInit # map WalkWrite ws' @
                  [WalkReturn (Inr m'), LoopLock, LoopCheck, LoopAssign, LoopUnlock]) s1 = Some s2
         \<and> running (br s2) \<and> pc s2 = Adapting
         \<and> published s2 = published s @ [snapshot s2] \<and> snd (snapshot s2) = Some m')"
    by (simp add: exec_append exec_writes observe_stop_def start_def snapshot_def)
  have 2: "pc t = Locked m \<and> pleaseStop (br t) \<longrightarrow>
        step LoopCheck t =
          Some (t\<lparr>br := (br t)\<lparr>pleaseStop := False, running := False\<rparr>, ticker := None,
                  mtx := None, pc := Idle\<rparr>)"
    by (simp add: observe_stop_def)
  have 3: "step e t = Some t' \<and> pleaseStop (br t) \<and> \<not> pleaseStop (br t') \<longrightarrow>
        e = LoopCheck \<and> (\<exists>m. pc t = Locked m) \<and> pc t' = Idle \<and> \<not> running (br t')"
  proof
    assume a: "step e t = Some t' \<and> pleaseStop (br t) \<and> \<not> pleaseStop (br t')"
    then have "step e t = Some t'" by simp
    then show "e = LoopCheck \<and> (\<exists>m. pc t = Locked m) \<and> pc t' = Idle \<and> \<not> running (br t')"
      by (cases rule: step_cases) (use a in \<open>auto simp: observe_stop_def\<close>)
  qed
  from 1 2 3 show ?thesis by blast
qed

text \<open>
  A stop during the first walk of a started reader.
\<close>

theorem stop_honoured_at_stop_check_witness:
  "pc (the (exec [Start, LoopInit, Stop] init)) = Scanning
   \<and> mtx (the (exec [Start, LoopInit, Stop] init)) = None
   \<and> pleaseStop (br (the (exec [Start, LoopInit, Stop] init)))
   \<and> (\<exists>s1 s2. exec (map WalkWrite [65] @ [WalkReturn (Inr [1 \<mapsto> 7]), LoopLock, LoopCheck])
           (the (exec [Start, LoopInit, Stop] init)) = Some s1
         \<and> pc s1 = Idle \<and> \<not> running (br s1) \<and> \<not> pleaseStop (br s1) \<and> ticker s1 = None
         \<and> exec (Start # LoopInit # map WalkWrite [66] @
                  [WalkReturn (Inr [2 \<mapsto> 8]), LoopLock, LoopCheck, LoopAssign, LoopUnlock]) s1
             = Some s2
         \<and> running (br s2) \<and> published s2 = [snapshot s2] \<and> snd (snapshot s2) = Some [2 \<mapsto> 8])"
  using stop_honoured_at_stop_check [of "the (exec [Start, LoopInit, Stop] init)" "[65]"
      "[1 \<mapsto> 7]" "[66]" "[2 \<mapsto> 8]" init Start init]
  by (simp add: exec_simps snapshot_def)

text \<open>
  C7 as stated fails: a stop is called during a walk, the walk fails, and the loop is
  scanning again, running, with the stop still pending; so it is after a second failed
  pass. The stop check is reached only after a walk that succeeds.
\<close>

theorem stop_pending_after_failed_walk_counterexample:
  "map_option loop_status (exec [Start, LoopInit, Stop] init) = Some (Scanning, True, True)
   \<and> map_option loop_status
       (exec [Start, LoopInit, Stop, WalkWrite 65, WalkReturn (Inl ''walk failed'')] init)
     = Some (Scanning, True, True)
   \<and> map_option loop_status
       (exec [Start, LoopInit, Stop, WalkWrite 65, WalkReturn (Inl ''walk failed''),
              WalkWrite 66, WalkReturn (Inl ''walk failed'')] init)
     = Some (Scanning, True, True)"
  by (simp add: exec_simps loop_status_def)

end
